theory Spec2Isabelle
  imports Complex_Main "HOL-Library.Sublist" "HOL-Library.AList"
begin

section \<open>Strings\<close>

text \<open>
  JavaScript strings are modelled as \<open>string\<close>. Every string the crawler inspects
  character-wise is a serialised URL component, which is ASCII (the URL parser
  percent-encodes everything else), so \<open>toLowerCase\<close> is written for ASCII letters.
\<close>

definition toLowerCase_char :: "char \<Rightarrow> char" where
  "toLowerCase_char c =
     (case map_of (zip ''ABCDEFGHIJKLMNOPQRSTUVWXYZ'' ''abcdefghijklmnopqrstuvwxyz'') c of
        None \<Rightarrow> c
      | Some d \<Rightarrow> d)"

definition toLowerCase :: "string \<Rightarrow> string" where
  "toLowerCase s = map toLowerCase_char s"

text \<open>\<open>s.endsWith(ext)\<close>: the last \<open>ext.length\<close> characters of \<open>s\<close> are \<open>ext\<close>.\<close>

definition endsWith :: "string \<Rightarrow> string \<Rightarrow> bool" where
  "endsWith s ext = (length ext \<le> length s \<and> drop (length s - length ext) s = ext)"

section \<open>The platform URL object\<close>

text \<open>
  \<open>new URL(input, base)\<close> is the platform's URL parser, not code of the crawler.
  The crawler only reads \<open>hostname\<close>, \<open>pathname\<close> and \<open>href\<close> of the object
  and writes \<open>hash\<close>. The object is modelled by the components of the URL record;
  the parser itself is a parameter \<open>newURL\<close> of every function that calls it, so the
  theorems below hold for whatever the platform parser answers. \<open>Inl TypeError\<close> is the
  exception \<open>new URL\<close> throws on an input it cannot parse.
\<close>

datatype error = TypeError

record URL =
  scheme :: string
  hostname :: string
  port :: "string option"
  pathname :: string
  query :: "string option"
  fragment :: "string option"

type_synonym url_parser = "string \<Rightarrow> string option \<Rightarrow> error + URL"

text \<open>The \<open>href\<close> getter: the serialisation of the record.\<close>

definition href :: "URL \<Rightarrow> string" where
  "href u =
     scheme u @ ''://'' @ hostname u
     @ (case port u of None \<Rightarrow> [] | Some p \<Rightarrow> '':'' @ p)
     @ pathname u
     @ (case query u of None \<Rightarrow> [] | Some q \<Rightarrow> ''?'' @ q)
     @ (case fragment u of None \<Rightarrow> [] | Some f \<Rightarrow> ''#'' @ f)"

text \<open>The assignment \<open>absoluteUrl.hash = ""\<close>: the fragment becomes null.\<close>

definition clear_hash :: "URL \<Rightarrow> URL" where
  "clear_hash u = u\<lparr>fragment := None\<rparr>"

subsection \<open>A reference parser\<close>

text \<open>
  A small executable instance of the parser parameter, used to run the crawler on
  concrete inputs. It splits \<open>scheme://host[:port]/path?query#fragment\<close> and resolves
  a relative reference against a base (same document, \<open>?query\<close>, \<open>/absolute\<close>,
  \<open>//host/path\<close>, \<open>relative/path\<close>). It agrees with the platform parser on inputs
  made of unreserved ASCII characters with a \<open>//\<close> authority; it does not model
  percent-encoding, credentials, default-port elision, dot-segment removal,
  backslashes or whitespace stripping, and no concrete input below needs them.
\<close>

definition cut :: "char \<Rightarrow> string \<Rightarrow> string \<times> string option" where
  "cut c s =
     (if c \<in> set s
      then (takeWhile (\<lambda>x. x \<noteq> c) s, Some (tl (dropWhile (\<lambda>x. x \<noteq> c) s)))
      else (s, None))"

definition is_alpha :: "char \<Rightarrow> bool" where
  "is_alpha c = (c \<in> set ''abcdefghijklmnopqrstuvwxyzABCDEFGHIJKLMNOPQRSTUVWXYZ'')"

definition is_scheme_char :: "char \<Rightarrow> bool" where
  "is_scheme_char c = (is_alpha c \<or> c \<in> set ''0123456789+-.'')"

definition has_scheme :: "string \<Rightarrow> bool" where
  "has_scheme s =
     (let sch = takeWhile (\<lambda>x. x \<noteq> CHR '':'') s
      in CHR '':'' \<in> set s \<and> sch \<noteq> [] \<and> is_alpha (hd sch) \<and> list_all is_scheme_char sch)"

definition ref_authority ::
  "string \<Rightarrow> string \<Rightarrow> string option \<Rightarrow> string option \<Rightarrow> error + URL" where
  "ref_authority sch rest q f =
     (let auth = takeWhile (\<lambda>x. x \<noteq> CHR ''/'') rest;
          p = dropWhile (\<lambda>x. x \<noteq> CHR ''/'') rest;
          hp = cut CHR '':'' auth
      in if fst hp = [] then Inl TypeError
         else Inr \<lparr>scheme = toLowerCase sch, hostname = toLowerCase (fst hp), port = snd hp,
                   pathname = (if p = [] then ''/'' else p), query = q, fragment = f\<rparr>)"

definition ref_absolute :: "string \<Rightarrow> error + URL" where
  "ref_absolute s =
     (let sf = cut CHR ''#'' s;
          sq = cut CHR ''?'' (fst sf);
          rest = tl (dropWhile (\<lambda>x. x \<noteq> CHR '':'') (fst sq))
      in if has_scheme (fst sq) \<and> take 2 rest = ''//''
         then ref_authority (takeWhile (\<lambda>x. x \<noteq> CHR '':'') (fst sq)) (drop 2 rest)
                (snd sq) (snd sf)
         else Inl TypeError)"

definition ref_newURL :: url_parser where
  "ref_newURL input base =
     (case base of
        None \<Rightarrow> ref_absolute input
      | Some b \<Rightarrow>
          (case ref_absolute b of
             Inl e \<Rightarrow> Inl e
           | Inr bu \<Rightarrow>
               (let sf = cut CHR ''#'' input;
                    sq = cut CHR ''?'' (fst sf);
                    p = fst sq
                in if has_scheme p then ref_absolute input
                   else if take 2 p = ''//'' then ref_authority (scheme bu) (drop 2 p) (snd sq) (snd sf)
                   else if take 1 p = ''/''
                     then Inr (bu\<lparr>pathname := p, query := snd sq, fragment := snd sf\<rparr>)
                   else if p = []
                     then Inr (bu\<lparr>query := (case snd sq of None \<Rightarrow> query bu | Some x \<Rightarrow> Some x),
                                   fragment := snd sf\<rparr>)
                   else Inr (bu\<lparr>pathname := rev (dropWhile (\<lambda>x. x \<noteq> CHR ''/'') (rev (pathname bu))) @ p,
                                 query := snd sq, fragment := snd sf\<rparr>))))"

section \<open>The extension filter\<close>

definition SKIP_EXTENSIONS :: "string list" where
  "SKIP_EXTENSIONS =
     [''.zip'', ''.tar'', ''.gz'', ''.tgz'', ''.rar'', ''.7z'', ''.bz2'',
      ''.pdf'', ''.doc'', ''.docx'', ''.xls'', ''.xlsx'', ''.ppt'', ''.pptx'', ''.odt'',
      ''.jpg'', ''.jpeg'', ''.png'', ''.gif'', ''.bmp'', ''.svg'', ''.webp'', ''.ico'', ''.tiff'',
      ''.mp3'', ''.wav'', ''.ogg'', ''.flac'', ''.aac'', ''.m4a'',
      ''.mp4'', ''.avi'', ''.mkv'', ''.mov'', ''.wmv'', ''.webm'', ''.flv'',
      ''.woff'', ''.woff2'', ''.ttf'', ''.otf'', ''.eot'',
      ''.json'', ''.xml'', ''.csv'', ''.rss'', ''.atom'',
      ''.exe'', ''.dmg'', ''.apk'', ''.deb'', ''.rpm'', ''.msi'', ''.bin'', ''.iso'',
      ''.map'', ''.wasm'']"

text \<open>
  \<open>shouldSkipUrl(url)\<close>: parse \<open>url\<close> (an exception propagates to the caller), lower-case
  the path and look for a denylist extension at its end.
\<close>

definition shouldSkipUrl :: "url_parser \<Rightarrow> string \<Rightarrow> error + bool" where
  "shouldSkipUrl newURL url =
     (case newURL url None of
        Inl e \<Rightarrow> Inl e
      | Inr u \<Rightarrow>
          Inr (list_ex (\<lambda>ext. endsWith (toLowerCase (pathname u)) ext) SKIP_EXTENSIONS))"

section \<open>Scope matching\<close>

text \<open>
  Modelled from the spec: \<open>micromatch.isMatch\<close> is a third-party library whose code
  is not part of the repository. The specification describes it as shell-glob matching
  of a hostname against a pattern: a pattern without \<open>*\<close> matches by string
  equality, and \<open>*\<close> matches any run of characters, dots included (so a wildcard
  covers one or several subdomain levels).
\<close>

fun isMatch :: "string \<Rightarrow> string \<Rightarrow> bool" where
  "isMatch [] [] = True"
| "isMatch (c # cs) [] = False"
| "isMatch [] (p # ps) = (p = CHR ''*'' \<and> isMatch [] ps)"
| "isMatch (c # cs) (p # ps) =
     (if p = CHR ''*'' then isMatch (c # cs) ps \<or> isMatch cs (p # ps)
      else p = c \<and> isMatch cs ps)"

text \<open>\<open>domain.some((d) => micromatch.isMatch(absoluteUrl.hostname, d))\<close>\<close>

definition isInScope :: "string \<Rightarrow> string list \<Rightarrow> bool" where
  "isInScope host scopeSpec = list_ex (\<lambda>d. isMatch host d) scopeSpec"

section \<open>The crawl state\<close>

text \<open>
  A JavaScript \<open>Set\<close> keeps its elements in insertion order without duplicates, a
  \<open>Map\<close> keeps its keys so; both are lists here. \<open>Set.add\<close> appends a new element
  and leaves the set alone otherwise, \<open>Map.set\<close> is \<open>AList.update\<close> (overwrite in
  place, or append), \<open>Set.difference\<close> keeps the order of its receiver.
\<close>

definition set_add :: "'a \<Rightarrow> 'a list \<Rightarrow> 'a list" where
  "set_add x xs = (if x \<in> set xs then xs else xs @ [x])"

definition difference :: "'a list \<Rightarrow> 'a list \<Rightarrow> 'a list" where
  "difference xs ys = filter (\<lambda>x. x \<notin> set ys) xs"

text \<open>
  A JavaScript number, as far as the page budget needs it: a finite value (a real
  number, which every binary64 value is), \<open>NaN\<close> or \<open>-Infinity\<close>. The command line
  puts no constraint on \<open>--max-pages\<close>, so the budget can be fractional, negative or
  \<open>NaN\<close>. With \<open>+Infinity\<close> the loop header never fails and a run need not end; that
  one value is left out.
\<close>

datatype number = Num real | NaN | NegInfinity

text \<open>
  The loop header \<open>i < maxPages\<close> for a counter \<open>i\<close> that counts up from 0: a
  comparison with \<open>NaN\<close> is false. \<open>limit\<close> is the number of iterations the header
  admits.
\<close>

definition below :: "nat \<Rightarrow> number \<Rightarrow> bool" where
  "below i m = (case m of Num x \<Rightarrow> real i < x | NaN \<Rightarrow> False | NegInfinity \<Rightarrow> False)"

definition limit :: "number \<Rightarrow> nat" where
  "limit m = (case m of Num x \<Rightarrow> nat \<lceil>x\<rceil> | NaN \<Rightarrow> 0 | NegInfinity \<Rightarrow> 0)"

text \<open>
  The arguments of \<open>probe\<close> that the crawl logic reads (the others only configure the
  browser, the delays and the report path).
\<close>

record config =
  url :: string
  domain :: "string list"
  maxPages :: number

text \<open>
  The four containers of \<open>probe\<close>, the loop variable \<open>nextUrl\<close>, and the targets of
  the \<open>page.goto\<close> calls made so far (the crawler's effect on the browser).
\<close>

record state =
  links :: "string list"
  visits :: "string list"
  requests :: "(string \<times> int) list"
  domains :: "string list"
  nextUrl :: string
  gotos :: "string list"

text \<open>
  What the browser reports for one navigation: the result of \<open>page.goto\<close>
  (\<open>None\<close> when the promise is rejected, by a timeout or a failed navigation, and
  \<open>.catch(() => {})\<close> turns it into \<open>undefined\<close>), the response events fired while
  the page is current, as pairs of \<open>response.url()\<close> and \<open>response.status()\<close>, and
  \<open>getAttribute("href")\<close> of every element that \<open>page.locator("a[href]").all()\<close>
  finds (\<open>None\<close> for \<open>null\<close>). The browser is a parameter: a function of the iteration
  number and the navigation target.
\<close>

record page =
  response :: "int option"
  events :: "(string \<times> int) list"
  anchors :: "string option list"

type_synonym driver = "nat \<Rightarrow> string \<Rightarrow> page"

text \<open>
  One evaluation of \<open>Math.floor(Math.random() * n)\<close>, as a function of \<open>n\<close>. The
  random number and the binary64 product are the platform's; the loop relies on one
  property of the result, which the type records: for a positive \<open>n\<close> it is an index
  below \<open>n\<close> (the random number is below 1, and the rounded product stays below
  \<open>n\<close>). How the indices are distributed is not part of the model.
\<close>

typedef draw = "{f :: nat \<Rightarrow> nat. \<forall>n. 0 < n \<longrightarrow> f n < n}"
  by (rule exI [of _ "\<lambda>n. 0"]) simp

setup_lifting type_definition_draw

lift_definition draw_zero :: draw is "\<lambda>n. 0"
  by simp

lift_definition draw_half :: draw is "\<lambda>n. n div 2"
  by simp

section \<open>The request ledger\<close>

text \<open>
  The \<open>response\<close> handler: parse the response URL, add its hostname to \<open>domains\<close>,
  and store the status under the response URL when the hostname is an element of
  \<open>domain\<close>. The surrounding \<open>try\<close> swallows the parser's exception.
\<close>

definition record_response :: "url_parser \<Rightarrow> config \<Rightarrow> string \<times> int \<Rightarrow> state \<Rightarrow> state" where
  "record_response newURL cfg ev s =
     (case newURL (fst ev) None of
        Inl e \<Rightarrow> s
      | Inr requestUrl \<Rightarrow>
          (let s1 = s\<lparr>domains := set_add (hostname requestUrl) (domains s)\<rparr>
           in if hostname requestUrl \<in> set (domain cfg)
              then s1\<lparr>requests := AList.update (fst ev) (snd ev) (requests s1)\<rparr>
              else s1))"

section \<open>The URL classifier\<close>

text \<open>
  The body of the loop over the anchors, for one anchor: nothing for a \<open>null\<close> or
  empty \<open>href\<close>; otherwise resolve it against \<open>url\<close>, clear the hash, test the scope
  and the extension filter (\<open>&&\<close> evaluates \<open>shouldSkipUrl\<close> only for a hostname in
  scope), and answer the link to add. Every exception ends in the empty \<open>catch\<close>.
\<close>

definition accept :: "url_parser \<Rightarrow> config \<Rightarrow> string option \<Rightarrow> string option" where
  "accept newURL cfg a =
     (case a of
        None \<Rightarrow> None
      | Some h \<Rightarrow>
          if h = [] then None
          else
            (case newURL h (Some (url cfg)) of
               Inl e \<Rightarrow> None
             | Inr parsed \<Rightarrow>
                 (let absoluteUrl = clear_hash parsed
                  in if isInScope (hostname absoluteUrl) (domain cfg)
                     then (case shouldSkipUrl newURL (href absoluteUrl) of
                             Inl e \<Rightarrow> None
                           | Inr skip \<Rightarrow> if \<not> skip then Some (href absoluteUrl) else None)
                     else None)))"

definition anchor_step :: "url_parser \<Rightarrow> config \<Rightarrow> string option \<Rightarrow> state \<Rightarrow> state" where
  "anchor_step newURL cfg a s =
     (case accept newURL cfg a of
        None \<Rightarrow> s
      | Some l \<Rightarrow> s\<lparr>links := set_add l (links s)\<rparr>)"

text \<open>
  The classifier as the specification words it: \<open>normalize\<close>, then reject unless in
  scope and not skipped.
\<close>

definition normalize :: "url_parser \<Rightarrow> string \<Rightarrow> string \<Rightarrow> error + URL" where
  "normalize newURL h baseUrl =
     (case newURL h (Some baseUrl) of Inl e \<Rightarrow> Inl e | Inr u \<Rightarrow> Inr (clear_hash u))"

definition accept_spec :: "url_parser \<Rightarrow> string \<Rightarrow> string \<Rightarrow> string list \<Rightarrow> string option" where
  "accept_spec newURL h baseUrl scopeSpec =
     (case normalize newURL h baseUrl of
        Inl e \<Rightarrow> None
      | Inr u \<Rightarrow>
          if isInScope (hostname u) scopeSpec \<and> shouldSkipUrl newURL (href u) = Inr False
          then Some (href u)
          else None)"

section \<open>The frontier\<close>

text \<open>\<open>Math.floor(Math.random() * unvisited.length)\<close>\<close>

definition next_index :: "draw \<Rightarrow> nat \<Rightarrow> nat" where
  "next_index r n = Rep_draw r n"

text \<open>
  The end of the loop body: the unvisited links, \<open>None\<close> for the \<open>break\<close> on an empty
  list, otherwise the element at the drawn index.
\<close>

definition nextUnvisited :: "draw \<Rightarrow> string list \<Rightarrow> string list \<Rightarrow> string option" where
  "nextUnvisited r ls vs =
     (let unvisited = difference ls vs
      in if length unvisited = 0 then None
         else Some (unvisited ! next_index r (length unvisited)))"

section \<open>The crawl controller\<close>

text \<open>
  One loop body up to the extraction: mark the target visited, navigate, take the
  response events, classify every anchor. The result of \<open>page.goto\<close> is only logged.
  The response handler runs between the steps of the loop, whenever the browser
  reports a response; it writes \<open>requests\<close> and \<open>domains\<close> only, which the loop
  never reads, so its events are taken in one block after the navigation. The calls
  that list the anchors and read their attributes are taken to succeed.
\<close>

definition visit_page :: "url_parser \<Rightarrow> driver \<Rightarrow> config \<Rightarrow> nat \<Rightarrow> state \<Rightarrow> state" where
  "visit_page newURL drv cfg i s =
     (let s1 = s\<lparr>visits := set_add (nextUrl s) (visits s), gotos := gotos s @ [nextUrl s]\<rparr>;
          pg = drv i (nextUrl s);
          s2 = foldl (\<lambda>st ev. record_response newURL cfg ev st) s1 (events pg)
      in foldl (\<lambda>st a. anchor_step newURL cfg a st) s2 (anchors pg))"

function loop ::
  "url_parser \<Rightarrow> driver \<Rightarrow> (nat \<Rightarrow> draw) \<Rightarrow> config \<Rightarrow> nat \<Rightarrow> state \<Rightarrow> state" where
  "loop newURL drv rnd cfg i s =
     (if below i (maxPages cfg)
      then (let s3 = visit_page newURL drv cfg i s
            in case nextUnvisited (rnd i) (links s3) (visits s3) of
                 None \<Rightarrow> s3
               | Some n \<Rightarrow> loop newURL drv rnd cfg (Suc i) (s3\<lparr>nextUrl := n\<rparr>))
      else s)"
  by pat_completeness auto
termination
proof -
  have d: "limit (maxPages cfg) - Suc i < limit (maxPages cfg) - i"
    if b: "below i (maxPages cfg)" for cfg :: config and i :: nat
  proof -
    have "i < limit (maxPages cfg)"
    proof (cases "maxPages cfg")
      case (Num x)
      with b have "int i < \<lceil>x\<rceil>" by (simp add: below_def less_ceiling_iff)
      then have "i < nat \<lceil>x\<rceil>" by linarith
      then show ?thesis using Num by (simp add: limit_def)
    qed (use b in \<open>simp_all add: below_def\<close>)
    then show ?thesis by simp
  qed
  show ?thesis
    by (relation "measure (\<lambda>(newURL, drv, rnd, cfg, i, s). limit (maxPages cfg) - i)")
       (auto simp: d)
qed

declare loop.simps [simp del]

definition init :: "config \<Rightarrow> state" where
  "init cfg = \<lparr>links = [], visits = [], requests = [], domains = [], nextUrl = url cfg, gotos = []\<rparr>"

definition probe :: "url_parser \<Rightarrow> driver \<Rightarrow> (nat \<Rightarrow> draw) \<Rightarrow> config \<Rightarrow> state" where
  "probe newURL drv rnd cfg = loop newURL drv rnd cfg 0 (init cfg)"

subsection \<open>The states a run passes through\<close>

text \<open>
  The same loop, instrumented. \<open>steps\<close> lists the state after each element of a
  \<open>for\<close> loop over a list; \<open>visit_trace\<close> lists the state after every mutation of
  one loop body; \<open>loop_trace\<close> lists every state of the run in order, and
  \<open>loop_ends\<close> the state at the end of each iteration, where the unvisited links
  are computed.
\<close>

fun steps :: "('x \<Rightarrow> state \<Rightarrow> state) \<Rightarrow> state \<Rightarrow> 'x list \<Rightarrow> state list" where
  "steps f s [] = []"
| "steps f s (x # xs) = f x s # steps f (f x s) xs"

definition visit_trace :: "url_parser \<Rightarrow> driver \<Rightarrow> config \<Rightarrow> nat \<Rightarrow> state \<Rightarrow> state list" where
  "visit_trace newURL drv cfg i s =
     (let s1 = s\<lparr>visits := set_add (nextUrl s) (visits s), gotos := gotos s @ [nextUrl s]\<rparr>;
          pg = drv i (nextUrl s);
          t2 = steps (record_response newURL cfg) s1 (events pg);
          s2 = last (s1 # t2)
      in s1 # t2 @ steps (anchor_step newURL cfg) s2 (anchors pg))"

function loop_trace ::
  "url_parser \<Rightarrow> driver \<Rightarrow> (nat \<Rightarrow> draw) \<Rightarrow> config \<Rightarrow> nat \<Rightarrow> state \<Rightarrow> state list" where
  "loop_trace newURL drv rnd cfg i s =
     (if below i (maxPages cfg)
      then (let s3 = visit_page newURL drv cfg i s
            in visit_trace newURL drv cfg i s @
               (case nextUnvisited (rnd i) (links s3) (visits s3) of
                  None \<Rightarrow> []
                | Some n \<Rightarrow> s3\<lparr>nextUrl := n\<rparr> # loop_trace newURL drv rnd cfg (Suc i) (s3\<lparr>nextUrl := n\<rparr>)))
      else [])"
  by pat_completeness auto
termination
proof -
  have d: "limit (maxPages cfg) - Suc i < limit (maxPages cfg) - i"
    if b: "below i (maxPages cfg)" for cfg :: config and i :: nat
  proof -
    have "i < limit (maxPages cfg)"
    proof (cases "maxPages cfg")
      case (Num x)
      with b have "int i < \<lceil>x\<rceil>" by (simp add: below_def less_ceiling_iff)
      then have "i < nat \<lceil>x\<rceil>" by linarith
      then show ?thesis using Num by (simp add: limit_def)
    qed (use b in \<open>simp_all add: below_def\<close>)
    then show ?thesis by simp
  qed
  show ?thesis
    by (relation "measure (\<lambda>(newURL, drv, rnd, cfg, i, s). limit (maxPages cfg) - i)")
       (auto simp: d)
qed

declare loop_trace.simps [simp del]

function loop_ends ::
  "url_parser \<Rightarrow> driver \<Rightarrow> (nat \<Rightarrow> draw) \<Rightarrow> config \<Rightarrow> nat \<Rightarrow> state \<Rightarrow> state list" where
  "loop_ends newURL drv rnd cfg i s =
     (if below i (maxPages cfg)
      then (let s3 = visit_page newURL drv cfg i s
            in s3 # (case nextUnvisited (rnd i) (links s3) (visits s3) of
                       None \<Rightarrow> []
                     | Some n \<Rightarrow> loop_ends newURL drv rnd cfg (Suc i) (s3\<lparr>nextUrl := n\<rparr>)))
      else [])"
  by pat_completeness auto
termination
proof -
  have d: "limit (maxPages cfg) - Suc i < limit (maxPages cfg) - i"
    if b: "below i (maxPages cfg)" for cfg :: config and i :: nat
  proof -
    have "i < limit (maxPages cfg)"
    proof (cases "maxPages cfg")
      case (Num x)
      with b have "int i < \<lceil>x\<rceil>" by (simp add: below_def less_ceiling_iff)
      then have "i < nat \<lceil>x\<rceil>" by linarith
      then show ?thesis using Num by (simp add: limit_def)
    qed (use b in \<open>simp_all add: below_def\<close>)
    then show ?thesis by simp
  qed
  show ?thesis
    by (relation "measure (\<lambda>(newURL, drv, rnd, cfg, i, s). limit (maxPages cfg) - i)")
       (auto simp: d)
qed

declare loop_ends.simps [simp del]

definition probe_trace :: "url_parser \<Rightarrow> driver \<Rightarrow> (nat \<Rightarrow> draw) \<Rightarrow> config \<Rightarrow> state list" where
  "probe_trace newURL drv rnd cfg = init cfg # loop_trace newURL drv rnd cfg 0 (init cfg)"

definition probe_ends :: "url_parser \<Rightarrow> driver \<Rightarrow> (nat \<Rightarrow> draw) \<Rightarrow> config \<Rightarrow> state list" where
  "probe_ends newURL drv rnd cfg = loop_ends newURL drv rnd cfg 0 (init cfg)"

text \<open>
  A link that has passed the classifier: the serialisation of a URL resolved against
  the seed with its fragment cleared, whose hostname is in scope and which the
  extension filter does not skip.
\<close>

definition accepted :: "url_parser \<Rightarrow> config \<Rightarrow> string \<Rightarrow> bool" where
  "accepted newURL cfg l \<longleftrightarrow>
     (\<exists>h u. newURL h (Some (url cfg)) = Inr u \<and> l = href (clear_hash u)
            \<and> isInScope (hostname u) (domain cfg))
     \<and> shouldSkipUrl newURL l = Inr False"

text \<open>
  Growth of the two frontier sets from one state to a later one: the earlier list is
  an initial segment of the later one, so nothing is removed or reordered.
\<close>

definition grows :: "state \<Rightarrow> state \<Rightarrow> bool" where
  "grows s t \<longleftrightarrow> prefix (links s) (links t) \<and> prefix (visits s) (visits t)"

text \<open>Concrete inputs for running the model.\<close>

definition example_cfg :: "nat \<Rightarrow> config" where
  "example_cfg n = \<lparr>url = ''https://example.com'', domain = [''example.com'', ''*.example.com''], maxPages = Num (real n)\<rparr>"

definition no_anchors :: driver where
  "no_anchors i target = \<lparr>response = Some 200, events = [], anchors = []\<rparr>"

text \<open>
  The site of the specification's end-to-end scenario: every page answers 200, fires
  one response event for itself and shows the anchors \<open>/a\<close>, \<open>/b\<close> and
  \<open>https://other.com/c\<close>.
\<close>

definition example_site :: driver where
  "example_site i target =
     \<lparr>response = Some 200, events = [(target, 200)],
      anchors = [Some ''/a'', Some ''/b'', Some ''https://other.com/c'']\<rparr>"

text \<open>
  A navigation that times out after the document has loaded: \<open>page.goto\<close> is
  rejected, and the page shows its anchor.
\<close>

definition timeout_site :: driver where
  "timeout_site i target = \<lparr>response = None, events = [], anchors = [Some ''/a'']\<rparr>"

text \<open>The example configuration with another page budget.\<close>

definition budget_cfg :: "number \<Rightarrow> config" where
  "budget_cfg m = \<lparr>url = ''https://example.com'', domain = [''example.com'', ''*.example.com''], maxPages = m\<rparr>"

definition pdf_cfg :: config where
  "pdf_cfg = \<lparr>url = ''https://example.com/report.pdf'', domain = [''example.com''], maxPages = Num 1\<rparr>"

subsection \<open>Predicates on states\<close>

text \<open>
  The request ledger is sound when every key parses to a URL whose hostname is an
  element of \<open>domain\<close>, and no key occurs twice.
\<close>

definition ledger_ok :: "url_parser \<Rightarrow> config \<Rightarrow> state \<Rightarrow> bool" where
  "ledger_ok newURL cfg t \<longleftrightarrow>
     (\<forall>k\<in>fst ` set (requests t). \<exists>u. newURL k None = Inr u \<and> hostname u \<in> set (domain cfg))
     \<and> distinct (map fst (requests t))"

text \<open>
  The frontier is sound when every discovered link has passed the classifier, and
  every visited page and the next target is the seed or has passed the classifier.
\<close>

definition frontier_ok :: "url_parser \<Rightarrow> config \<Rightarrow> state \<Rightarrow> bool" where
  "frontier_ok newURL cfg t \<longleftrightarrow>
     (\<forall>l\<in>set (links t). accepted newURL cfg l)
     \<and> (\<forall>v\<in>set (visits t). v = url cfg \<or> accepted newURL cfg v)
     \<and> (nextUrl t = url cfg \<or> accepted newURL cfg (nextUrl t))"

text \<open>
  The unvisited links of a state, \<open>links.difference(visits)\<close>.
\<close>

definition frontier :: "state \<Rightarrow> string list" where
  "frontier t = difference (links t) (visits t)"

text \<open>
  Every visited page, and the next target, is a discovered link or the seed.
\<close>

definition visits_ok :: "config \<Rightarrow> state \<Rightarrow> bool" where
  "visits_ok cfg t \<longleftrightarrow>
     set (visits t) \<subseteq> set (links t) \<union> {url cfg} \<and> nextUrl t \<in> set (links t) \<union> {url cfg}"

text \<open>
  A site whose pages show the relative anchor \<open>a\<close>.
\<close>

definition relative_site :: driver where
  "relative_site i target = \<lparr>response = Some 200, events = [], anchors = [Some ''a'']\<rparr>"

section \<open>The loop header\<close>

lemma below_iff [simp]: "below i m \<longleftrightarrow> i < limit m"
proof (cases m)
  case (Num x)
  have "real i < x \<longleftrightarrow> int i < \<lceil>x\<rceil>" by (simp add: less_ceiling_iff)
  also have "\<dots> \<longleftrightarrow> i < nat \<lceil>x\<rceil>" by linarith
  finally show ?thesis using Num by (simp add: below_def limit_def)
qed (simp_all add: below_def limit_def)

lemma limit_simps [simp]:
  "limit (Num x) = nat \<lceil>x\<rceil>" "limit NaN = 0" "limit NegInfinity = 0"
  by (simp_all add: limit_def)

section \<open>Properties of the extension filter\<close>

lemma endsWith_suffix: "endsWith s ext \<longleftrightarrow> suffix ext s"
proof
  assume "endsWith s ext"
  then have "s = take (length s - length ext) s @ ext"
    by (metis append_take_drop_id endsWith_def)
  then show "suffix ext s"
    by (metis suffixI)
next
  assume "suffix ext s"
  then obtain zs where "s = zs @ ext"
    by (auto simp: suffix_def)
  then show "endsWith s ext"
    by (simp add: endsWith_def)
qed

lemma suffix_map_iff: "suffix e (map f p) \<longleftrightarrow> (\<exists>t. suffix t p \<and> map f t = e)"
proof
  assume "suffix e (map f p)"
  then obtain zs where zs: "map f p = zs @ e"
    by (auto simp: suffix_def)
  have "p = take (length zs) p @ drop (length zs) p"
    by simp
  then have "suffix (drop (length zs) p) p"
    by (metis suffixI)
  moreover have "map f (drop (length zs) p) = e"
    using zs by (metis append_eq_conv_conj drop_map)
  ultimately show "\<exists>t. suffix t p \<and> map f t = e"
    by blast
next
  assume "\<exists>t. suffix t p \<and> map f t = e"
  then obtain t zs where "p = zs @ t" "map f t = e"
    by (auto simp: suffix_def)
  then show "suffix e (map f p)"
    by (auto simp: suffix_def)
qed

lemma SKIP_EXTENSIONS_lower: "ext \<in> set SKIP_EXTENSIONS \<Longrightarrow> toLowerCase ext = ext"
  by (auto simp: SKIP_EXTENSIONS_def toLowerCase_def toLowerCase_char_def)

lemma shouldSkipUrl_path:
  assumes "newURL x None = Inr u"
  shows "shouldSkipUrl newURL x =
         Inr (\<exists>ext\<in>set SKIP_EXTENSIONS. \<exists>t. suffix t (pathname u) \<and> toLowerCase t = toLowerCase ext)"
proof -
  have "list_ex (\<lambda>ext. endsWith (toLowerCase (pathname u)) ext) SKIP_EXTENSIONS
        \<longleftrightarrow> (\<exists>ext\<in>set SKIP_EXTENSIONS. \<exists>t. suffix t (pathname u) \<and> toLowerCase t = ext)"
    unfolding list_ex_iff endsWith_suffix toLowerCase_def suffix_map_iff ..
  also have "\<dots> \<longleftrightarrow> (\<exists>ext\<in>set SKIP_EXTENSIONS. \<exists>t. suffix t (pathname u) \<and> toLowerCase t = toLowerCase ext)"
    using SKIP_EXTENSIONS_lower by auto
  finally show ?thesis
    using assms by (simp add: shouldSkipUrl_def)
qed

lemmas ref_parser_defs =
  ref_newURL_def ref_absolute_def ref_authority_def cut_def has_scheme_def is_alpha_def
  is_scheme_char_def toLowerCase_def toLowerCase_char_def Let_def

lemmas skip_eval =
  shouldSkipUrl_def SKIP_EXTENSIONS_def endsWith_def

text \<open>
  C6. For every URL the parser accepts, \<open>shouldSkipUrl\<close> answers true iff some suffix
  of the URL's path equals a denylist extension up to letter case; the answer depends
  on the path alone, so query string and fragment are ignored. The three examples of
  the specification evaluate as stated.
\<close>

theorem shouldSkipUrl_spec:
  "(\<forall>newURL x u. newURL x None = Inr u \<longrightarrow>
      shouldSkipUrl newURL x =
      Inr (\<exists>ext\<in>set SKIP_EXTENSIONS. \<exists>t. suffix t (pathname u) \<and> toLowerCase t = toLowerCase ext))
   \<and> (\<forall>newURL x y u u'.
        newURL x None = Inr u \<and> newURL y None = Inr u' \<and> pathname u = pathname u' \<longrightarrow>
        shouldSkipUrl newURL x = shouldSkipUrl newURL y)
   \<and> shouldSkipUrl ref_newURL ''https://x.com/report.pdf'' = Inr True
   \<and> shouldSkipUrl ref_newURL ''https://x.com/report.pdf?x=1'' = Inr True
   \<and> shouldSkipUrl ref_newURL ''https://x.com/page'' = Inr False"
proof (intro conjI allI impI)
  fix newURL :: url_parser and x u
  assume "newURL x None = Inr u"
  then show "shouldSkipUrl newURL x =
      Inr (\<exists>ext\<in>set SKIP_EXTENSIONS. \<exists>t. suffix t (pathname u) \<and> toLowerCase t = toLowerCase ext)"
    by (rule shouldSkipUrl_path)
next
  fix newURL :: url_parser and x y u u'
  assume "newURL x None = Inr u \<and> newURL y None = Inr u' \<and> pathname u = pathname u'"
  then show "shouldSkipUrl newURL x = shouldSkipUrl newURL y"
    by (simp add: shouldSkipUrl_def)
next
  show "shouldSkipUrl ref_newURL ''https://x.com/report.pdf'' = Inr True"
    by (simp add: skip_eval ref_parser_defs)
next
  show "shouldSkipUrl ref_newURL ''https://x.com/report.pdf?x=1'' = Inr True"
    by (simp add: skip_eval ref_parser_defs)
next
  show "shouldSkipUrl ref_newURL ''https://x.com/page'' = Inr False"
    by (simp add: skip_eval ref_parser_defs)
qed

theorem shouldSkipUrl_spec_witness:
  "ref_newURL ''https://x.com/a/Photo.JPEG?size=2#top'' None =
     Inr \<lparr>scheme = ''https'', hostname = ''x.com'', port = None, pathname = ''/a/Photo.JPEG'',
          query = Some ''size=2'', fragment = Some ''top''\<rparr>
   \<and> shouldSkipUrl ref_newURL ''https://x.com/a/Photo.JPEG?size=2#top'' = Inr True
   \<and> suffix ''.JPEG'' ''/a/Photo.JPEG'' \<and> toLowerCase ''.JPEG'' = toLowerCase ''.jpeg''"
proof -
  have p: "ref_newURL ''https://x.com/a/Photo.JPEG?size=2#top'' None =
     Inr \<lparr>scheme = ''https'', hostname = ''x.com'', port = None, pathname = ''/a/Photo.JPEG'',
          query = Some ''size=2'', fragment = Some ''top''\<rparr>"
    by (simp add: ref_parser_defs)
  have e: "''.jpeg'' \<in> set SKIP_EXTENSIONS"
    by (simp add: SKIP_EXTENSIONS_def)
  have s: "suffix ''.JPEG'' ''/a/Photo.JPEG'' \<and> toLowerCase ''.JPEG'' = toLowerCase ''.jpeg''"
    by (simp add: suffix_def toLowerCase_def toLowerCase_char_def)
  note g = shouldSkipUrl_spec [THEN conjunct1, rule_format, of ref_newURL]
  from g [OF p] e s
  have "shouldSkipUrl ref_newURL ''https://x.com/a/Photo.JPEG?size=2#top'' = Inr True"
    by auto
  with p s show ?thesis
    by simp
qed

section \<open>Facts about matching, sets and the random index\<close>

lemma isMatch_starless: "CHR ''*'' \<notin> set p \<Longrightarrow> isMatch h p \<longleftrightarrow> h = p"
  by (induction h p rule: isMatch.induct) auto

lemma isMatch_star_prefix:
  assumes "CHR ''*'' \<notin> set d"
  shows "isMatch h (CHR ''*'' # d) \<longleftrightarrow> suffix d h"
proof (induction h)
  case Nil
  show ?case using assms by (auto simp: isMatch_starless)
next
  case (Cons c cs)
  then show ?case using assms by (auto simp: isMatch_starless suffix_Cons)
qed

lemma next_index_less: "0 < n \<Longrightarrow> next_index r n < n"
  using Rep_draw [of r] by (simp add: next_index_def)

lemma set_set_add [simp]: "set (set_add x xs) = insert x (set xs)"
  by (auto simp: set_add_def)

lemma distinct_set_add [simp]: "distinct (set_add x xs) = distinct xs"
  by (auto simp: set_add_def)

lemma prefix_set_add [simp]: "prefix xs (set_add x xs)"
  by (simp add: set_add_def)

lemma set_difference [simp]: "set (difference xs ys) = set xs - set ys"
  by (auto simp: difference_def)

lemma distinct_difference: "distinct xs \<Longrightarrow> distinct (difference xs ys)"
  by (simp add: difference_def)

lemma difference_Nil_iff: "difference xs ys = [] \<longleftrightarrow> set xs - set ys = {}"
  by (metis set_difference set_empty)

lemma foldl_steps: "foldl (\<lambda>st x. f x st) s xs = last (s # steps f s xs)"
  by (induction xs arbitrary: s) auto

lemma visit_page_last: "visit_page newURL drv cfg i s = last (visit_trace newURL drv cfg i s)"
  by (simp add: visit_page_def visit_trace_def Let_def foldl_steps last_append)

lemma visit_trace_nonempty [simp]: "visit_trace newURL drv cfg i s \<noteq> []"
  by (simp add: visit_trace_def Let_def)

lemma loop_last: "loop newURL drv rnd cfg i s = last (s # loop_trace newURL drv rnd cfg i s)"
proof (induction newURL drv rnd cfg i s rule: loop.induct)
  case (1 newURL drv rnd cfg i s)
  show ?case
  proof (cases "below i (maxPages cfg)")
    case False
    then show ?thesis by (simp add: loop.simps loop_trace.simps)
  next
    case True
    let ?s3 = "visit_page newURL drv cfg i s"
    show ?thesis
    proof (cases "nextUnvisited (rnd i) (links ?s3) (visits ?s3)")
      case None
      with True show ?thesis
        by (simp add: loop.simps [of _ _ _ _ i s] loop_trace.simps [of _ _ _ _ i s] visit_page_last)
    next
      case (Some n)
      with True "1.IH" [OF True refl Some] show ?thesis
        by (simp add: loop.simps [of _ _ _ _ i s] loop_trace.simps [of _ _ _ _ i s] Let_def)
    qed
  qed
qed

section \<open>Invariants of a run\<close>

lemma record_response_fields [simp]:
  "links (record_response newURL cfg ev s) = links s"
  "visits (record_response newURL cfg ev s) = visits s"
  "nextUrl (record_response newURL cfg ev s) = nextUrl s"
  "gotos (record_response newURL cfg ev s) = gotos s"
  by (auto simp: record_response_def Let_def split: sum.splits)

lemma anchor_step_fields [simp]:
  "visits (anchor_step newURL cfg a s) = visits s"
  "requests (anchor_step newURL cfg a s) = requests s"
  "domains (anchor_step newURL cfg a s) = domains s"
  "nextUrl (anchor_step newURL cfg a s) = nextUrl s"
  "gotos (anchor_step newURL cfg a s) = gotos s"
  by (auto simp: anchor_step_def split: option.splits)

lemma steps_invariant:
  assumes "\<And>x s. P s \<Longrightarrow> P (f x s)" and "P s"
  shows "\<forall>t\<in>set (steps f s xs). P t"
  using assms(2)
proof (induction xs arbitrary: s)
  case Nil
  show ?case by simp
next
  case (Cons x xs)
  have "P (f x s)" using Cons.prems by (rule assms(1))
  with Cons.IH [of "f x s"] show ?case by simp
qed

lemma last_steps_invariant:
  assumes "\<And>x s. P s \<Longrightarrow> P (f x s)" and "P s"
  shows "P (last (s # steps f s xs))"
proof (cases "steps f s xs = []")
  case True
  then show ?thesis using assms(2) by simp
next
  case False
  then have "last (steps f s xs) \<in> set (steps f s xs)" by simp
  with steps_invariant [of P f s xs, OF assms] False show ?thesis by simp
qed

lemma visit_trace_invariant:
  assumes init: "P s"
    and mark: "\<And>s. P s \<Longrightarrow> P (s\<lparr>visits := set_add (nextUrl s) (visits s), gotos := gotos s @ [nextUrl s]\<rparr>)"
    and ev: "\<And>e s. P s \<Longrightarrow> P (record_response newURL cfg e s)"
    and an: "\<And>a s. P s \<Longrightarrow> P (anchor_step newURL cfg a s)"
  shows "\<forall>t\<in>set (visit_trace newURL drv cfg i s). P t"
proof -
  let ?s1 = "s\<lparr>visits := set_add (nextUrl s) (visits s), gotos := gotos s @ [nextUrl s]\<rparr>"
  let ?t2 = "steps (record_response newURL cfg) ?s1 (events (drv i (nextUrl s)))"
  have 1: "P ?s1" using init by (rule mark)
  have 2: "\<forall>t\<in>set ?t2. P t" using ev 1 by (rule steps_invariant)
  have 3: "P (last (?s1 # ?t2))" using ev 1 by (rule last_steps_invariant)
  have 4: "\<forall>t\<in>set (steps (anchor_step newURL cfg) (last (?s1 # ?t2)) (anchors (drv i (nextUrl s)))). P t"
    using an 3 by (rule steps_invariant)
  show ?thesis
    unfolding visit_trace_def Let_def using 1 2 4 by auto
qed

lemma visit_page_invariant:
  assumes init: "P s"
    and mark: "\<And>s. P s \<Longrightarrow> P (s\<lparr>visits := set_add (nextUrl s) (visits s), gotos := gotos s @ [nextUrl s]\<rparr>)"
    and ev: "\<And>e s. P s \<Longrightarrow> P (record_response newURL cfg e s)"
    and an: "\<And>a s. P s \<Longrightarrow> P (anchor_step newURL cfg a s)"
  shows "P (visit_page newURL drv cfg i s)"
  using visit_trace_invariant [of P, OF assms, of drv i]
  by (simp add: visit_page_last)

lemma loop_trace_invariant:
  assumes init: "P s"
    and mark: "\<And>s. P s \<Longrightarrow> P (s\<lparr>visits := set_add (nextUrl s) (visits s), gotos := gotos s @ [nextUrl s]\<rparr>)"
    and ev: "\<And>e s. P s \<Longrightarrow> P (record_response newURL cfg e s)"
    and an: "\<And>a s. P s \<Longrightarrow> P (anchor_step newURL cfg a s)"
    and nxt: "\<And>s r n. P s \<Longrightarrow> nextUnvisited r (links s) (visits s) = Some n \<Longrightarrow> P (s\<lparr>nextUrl := n\<rparr>)"
  shows "\<forall>t\<in>set (loop_trace newURL drv rnd cfg i s). P t"
  using assms
proof (induction newURL drv rnd cfg i s rule: loop_trace.induct)
  case (1 newURL drv rnd cfg i s)
  note mark = "1.prems"(2) and ev = "1.prems"(3) and an = "1.prems"(4) and nxt = "1.prems"(5)
  show ?case
  proof (cases "below i (maxPages cfg)")
    case False
    then show ?thesis by (simp add: loop_trace.simps)
  next
    case True
    let ?s3 = "visit_page newURL drv cfg i s"
    have vt: "\<forall>t\<in>set (visit_trace newURL drv cfg i s). P t"
      using "1.prems"(1) mark ev an by (rule visit_trace_invariant)
    have s3: "P ?s3"
      using "1.prems"(1) mark ev an by (rule visit_page_invariant)
    show ?thesis
    proof (cases "nextUnvisited (rnd i) (links ?s3) (visits ?s3)")
      case None
      with True vt show ?thesis
        by (simp add: loop_trace.simps [of _ _ _ _ i s] Let_def)
    next
      case (Some n)
      have s': "P (?s3\<lparr>nextUrl := n\<rparr>)" using s3 Some by (rule nxt)
      have "\<forall>x\<in>set (loop_trace newURL drv rnd cfg (Suc i) (?s3\<lparr>nextUrl := n\<rparr>)). P x"
      proof (rule "1.IH" [OF True refl Some])
        show "P (?s3\<lparr>nextUrl := n\<rparr>)" by (rule s')
      qed (fact mark ev an nxt)+
      with True vt Some s' show ?thesis
        by (auto simp: loop_trace.simps [of _ _ _ _ i s] Let_def)
    qed
  qed
qed

lemma loop_ends_subset_trace:
  "set (loop_ends newURL drv rnd cfg i s) \<subseteq> set (loop_trace newURL drv rnd cfg i s)"
proof (induction newURL drv rnd cfg i s rule: loop_ends.induct)
  case (1 newURL drv rnd cfg i s)
  show ?case
  proof (cases "below i (maxPages cfg)")
    case False
    then show ?thesis by (simp add: loop_ends.simps)
  next
    case True
    let ?s3 = "visit_page newURL drv cfg i s"
    have in_vt: "?s3 \<in> set (visit_trace newURL drv cfg i s)"
      by (simp add: visit_page_last)
    show ?thesis
    proof (cases "nextUnvisited (rnd i) (links ?s3) (visits ?s3)")
      case None
      with True in_vt show ?thesis
        by (simp add: loop_ends.simps [of _ _ _ _ i s] loop_trace.simps [of _ _ _ _ i s] Let_def)
    next
      case (Some n)
      with True in_vt "1.IH" [OF True refl Some] show ?thesis
        by (auto simp: loop_ends.simps [of _ _ _ _ i s] loop_trace.simps [of _ _ _ _ i s] Let_def)
    qed
  qed
qed

section \<open>The scope matcher and the frontier\<close>

text \<open>
  C5. A hostname is in scope iff it matches some pattern of the list. A pattern
  without \<open>*\<close> matches exactly the hostname equal to it; a pattern \<open>*d\<close> with \<open>d\<close>
  free of \<open>*\<close> matches exactly the hostnames that end with \<open>d\<close>, whatever stands
  before (one subdomain label or several). The three examples of the specification hold.
  The matcher is the one modelled from the specification.
\<close>

theorem isInScope_spec:
  "(\<forall>h ps. isInScope h ps \<longleftrightarrow> (\<exists>p\<in>set ps. isMatch h p))
   \<and> (\<forall>h p. CHR ''*'' \<notin> set p \<longrightarrow> isMatch h p = (h = p))
   \<and> (\<forall>h d. CHR ''*'' \<notin> set d \<longrightarrow> isMatch h (CHR ''*'' # d) = suffix d h)
   \<and> isInScope ''a.example.com'' [''*.example.com'']
   \<and> \<not> isInScope ''example.com'' [''*.example.com'']
   \<and> isInScope ''example.com'' [''example.com'']"
proof (intro conjI allI impI)
  fix h ps
  show "isInScope h ps \<longleftrightarrow> (\<exists>p\<in>set ps. isMatch h p)"
    by (simp add: isInScope_def list_ex_iff)
next
  fix h p :: string
  assume "CHR ''*'' \<notin> set p"
  then show "isMatch h p = (h = p)" by (rule isMatch_starless)
next
  fix h d :: string
  assume "CHR ''*'' \<notin> set d"
  then show "isMatch h (CHR ''*'' # d) = suffix d h" by (rule isMatch_star_prefix)
next
  show "isInScope ''a.example.com'' [''*.example.com'']"
    by (simp add: isInScope_def)
next
  show "\<not> isInScope ''example.com'' [''*.example.com'']"
    by (simp add: isInScope_def)
next
  show "isInScope ''example.com'' [''example.com'']"
    by (simp add: isInScope_def)
qed

theorem isInScope_spec_witness:
  "CHR ''*'' \<notin> set ''.example.com''
   \<and> isMatch ''a.b.example.com'' ''*.example.com''
   \<and> \<not> isMatch ''example.org'' ''*.example.com''
   \<and> \<not> isMatch ''www.example.com'' ''example.com''"
proof -
  have s: "CHR ''*'' \<notin> set ''.example.com''" by simp
  have e: "CHR ''*'' \<notin> set ''example.com''" by simp
  note star = isInScope_spec [THEN conjunct2, THEN conjunct2, THEN conjunct1, rule_format]
  note exact = isInScope_spec [THEN conjunct2, THEN conjunct1, rule_format]
  have 1: "isMatch ''a.b.example.com'' (CHR ''*'' # ''.example.com'') = suffix ''.example.com'' ''a.b.example.com''"
    using s by (rule star)
  have 2: "isMatch ''example.org'' (CHR ''*'' # ''.example.com'') = suffix ''.example.com'' ''example.org''"
    using s by (rule star)
  have 3: "isMatch ''www.example.com'' ''example.com'' = (''www.example.com'' = ''example.com'')"
    using e by (rule exact)
  have 4: "suffix ''.example.com'' ''a.b.example.com''"
    by (simp add: suffix_def)
  have 5: "\<not> suffix ''.example.com'' ''example.org''"
    by (simp add: suffix_Cons)
  from 1 2 3 4 5 s show ?thesis by simp
qed

lemma nextUnvisited_None_iff: "nextUnvisited r ls vs = None \<longleftrightarrow> difference ls vs = []"
  by (simp add: nextUnvisited_def Let_def)

lemma nextUnvisited_Some:
  assumes "nextUnvisited r ls vs = Some x"
  shows "x \<in> set ls \<and> x \<notin> set vs"
proof -
  let ?u = "difference ls vs"
  from assms have ne: "0 < length ?u" and x: "x = ?u ! next_index r (length ?u)"
    by (auto simp: nextUnvisited_def Let_def split: if_splits)
  from ne have "next_index r (length ?u) < length ?u" by (rule next_index_less)
  then have "?u ! next_index r (length ?u) \<in> set ?u" by (rule nth_mem)
  then have "x \<in> set ?u" using x by blast
  then show ?thesis by simp
qed

lemma nextUnvisited_any:
  assumes "x \<in> set ls - set vs"
  shows "\<exists>r. nextUnvisited r ls vs = Some x"
proof -
  let ?u = "difference ls vs"
  from assms have "x \<in> set ?u" by simp
  then obtain k where k: "k < length ?u" and x: "?u ! k = x"
    by (metis in_set_conv_nth)
  let ?f = "\<lambda>n. if k < n then k else 0"
  have "Rep_draw (Abs_draw ?f) = ?f" by (simp add: Abs_draw_inverse)
  then have "next_index (Abs_draw ?f) (length ?u) = k"
    using k by (simp add: next_index_def)
  then have "nextUnvisited (Abs_draw ?f) ls vs = Some x"
    using k x by (auto simp: nextUnvisited_def Let_def)
  then show ?thesis ..
qed

lemma foldl_record_response_fields [simp]:
  "links (foldl (\<lambda>st ev. record_response newURL cfg ev st) s es) = links s"
  "visits (foldl (\<lambda>st ev. record_response newURL cfg ev st) s es) = visits s"
  "nextUrl (foldl (\<lambda>st ev. record_response newURL cfg ev st) s es) = nextUrl s"
  "gotos (foldl (\<lambda>st ev. record_response newURL cfg ev st) s es) = gotos s"
  by (induction es arbitrary: s) simp_all

lemma foldl_anchor_step_fields [simp]:
  "visits (foldl (\<lambda>st a. anchor_step newURL cfg a st) s as) = visits s"
  "requests (foldl (\<lambda>st a. anchor_step newURL cfg a st) s as) = requests s"
  "domains (foldl (\<lambda>st a. anchor_step newURL cfg a st) s as) = domains s"
  "nextUrl (foldl (\<lambda>st a. anchor_step newURL cfg a st) s as) = nextUrl s"
  "gotos (foldl (\<lambda>st a. anchor_step newURL cfg a st) s as) = gotos s"
  by (induction as arbitrary: s) simp_all

lemma anchor_step_links:
  "set (links (anchor_step newURL cfg a s)) = set (links s) \<union> {l. accept newURL cfg a = Some l}"
  by (auto simp: anchor_step_def split: option.splits)

lemma foldl_anchor_step_links:
  "set (links (foldl (\<lambda>st a. anchor_step newURL cfg a st) s as)) =
   set (links s) \<union> {l. \<exists>a\<in>set as. accept newURL cfg a = Some l}"
proof (induction as arbitrary: s)
  case Nil
  show ?case by simp
next
  case (Cons a as)
  show ?case
    unfolding foldl_Cons Cons.IH anchor_step_links by auto
qed

lemma visit_page_visits: "visits (visit_page newURL drv cfg i s) = set_add (nextUrl s) (visits s)"
  by (simp add: visit_page_def Let_def)

lemma visit_page_gotos: "gotos (visit_page newURL drv cfg i s) = gotos s @ [nextUrl s]"
  by (simp add: visit_page_def Let_def)

lemma visit_page_nextUrl: "nextUrl (visit_page newURL drv cfg i s) = nextUrl s"
  by (simp add: visit_page_def Let_def)

lemma visit_page_links:
  "set (links (visit_page newURL drv cfg i s)) =
   set (links s) \<union> {l. \<exists>a\<in>set (anchors (drv i (nextUrl s))). accept newURL cfg a = Some l}"
  by (simp add: visit_page_def Let_def foldl_anchor_step_links)

lemma visit_page_no_anchors:
  "anchors (drv i (nextUrl s)) = [] \<Longrightarrow> links (visit_page newURL drv cfg i s) = links s"
  by (simp add: visit_page_def Let_def)

lemma loop_break:
  assumes "below i (maxPages cfg)"
    and "nextUnvisited (rnd i) (links (visit_page newURL drv cfg i s)) (visits (visit_page newURL drv cfg i s)) = None"
  shows "loop newURL drv rnd cfg i s = visit_page newURL drv cfg i s"
  using assms by (simp add: loop.simps [of _ _ _ _ i s] Let_def)

lemma loop_continue:
  assumes "below i (maxPages cfg)"
  shows "loop newURL drv rnd cfg i s =
         (case nextUnvisited (rnd i) (links (visit_page newURL drv cfg i s)) (visits (visit_page newURL drv cfg i s)) of
            None \<Rightarrow> visit_page newURL drv cfg i s
          | Some n \<Rightarrow> loop newURL drv rnd cfg (Suc i) ((visit_page newURL drv cfg i s)\<lparr>nextUrl := n\<rparr>))"
  using assms by (simp add: loop.simps [of _ _ _ _ i s] Let_def)

lemma anchor_step_distinct: "distinct (links s) \<Longrightarrow> distinct (links (anchor_step newURL cfg a s))"
  by (simp add: anchor_step_def split: option.splits)

lemma trace_distinct:
  "\<forall>t\<in>set (probe_trace newURL drv rnd cfg). distinct (links t) \<and> distinct (visits t)"
proof -
  let ?P = "\<lambda>t. distinct (links t) \<and> distinct (visits t)"
  have "?P (init cfg)" by (simp add: init_def)
  moreover have "\<forall>t\<in>set (loop_trace newURL drv rnd cfg 0 (init cfg)). ?P t"
    by (rule loop_trace_invariant [where P = ?P])
       (simp_all add: init_def anchor_step_distinct)
  ultimately show ?thesis by (simp add: probe_trace_def)
qed

lemma nextUnvisited_facts:
  "(nextUnvisited r ls vs = None \<longleftrightarrow> set ls - set vs = {})
   \<and> (\<forall>x. nextUnvisited r ls vs = Some x \<longrightarrow> x \<in> set ls - set vs)
   \<and> (\<forall>x\<in>set ls - set vs. \<exists>r'. nextUnvisited r' ls vs = Some x)"
proof (intro conjI allI impI ballI)
  show "nextUnvisited r ls vs = None \<longleftrightarrow> set ls - set vs = {}"
    by (simp only: nextUnvisited_None_iff difference_Nil_iff)
next
  fix x assume "nextUnvisited r ls vs = Some x"
  then show "x \<in> set ls - set vs" using nextUnvisited_Some by blast
next
  fix x assume "x \<in> set ls - set vs"
  then show "\<exists>r'. nextUnvisited r' ls vs = Some x" by (rule nextUnvisited_any)
qed

section \<open>Runs on concrete inputs\<close>

lemma parse_seed:
  "ref_newURL ''https://example.com'' None =
     Inr \<lparr>scheme = ''https'', hostname = ''example.com'', port = None, pathname = ''/'',
          query = None, fragment = None\<rparr>"
  by (simp add: ref_parser_defs)

lemma parse_a:
  "ref_newURL ''https://example.com/a'' None =
     Inr \<lparr>scheme = ''https'', hostname = ''example.com'', port = None, pathname = ''/a'',
          query = None, fragment = None\<rparr>"
  by (simp add: ref_parser_defs)

lemma parse_b:
  "ref_newURL ''https://example.com/b'' None =
     Inr \<lparr>scheme = ''https'', hostname = ''example.com'', port = None, pathname = ''/b'',
          query = None, fragment = None\<rparr>"
  by (simp add: ref_parser_defs)

lemma resolve_a:
  "ref_newURL ''/a'' (Some ''https://example.com'') =
     Inr \<lparr>scheme = ''https'', hostname = ''example.com'', port = None, pathname = ''/a'',
          query = None, fragment = None\<rparr>"
  by (simp add: ref_parser_defs)

lemma resolve_b:
  "ref_newURL ''/b'' (Some ''https://example.com'') =
     Inr \<lparr>scheme = ''https'', hostname = ''example.com'', port = None, pathname = ''/b'',
          query = None, fragment = None\<rparr>"
  by (simp add: ref_parser_defs)

lemma resolve_c:
  "ref_newURL ''https://other.com/c'' (Some ''https://example.com'') =
     Inr \<lparr>scheme = ''https'', hostname = ''other.com'', port = None, pathname = ''/c'',
          query = None, fragment = None\<rparr>"
  by (simp add: ref_parser_defs)

lemma accept_a: "accept ref_newURL (example_cfg n) (Some ''/a'') = Some ''https://example.com/a''"
  by (simp add: accept_def example_cfg_def resolve_a clear_hash_def isInScope_def href_def
      shouldSkipUrl_def parse_a SKIP_EXTENSIONS_def endsWith_def toLowerCase_def toLowerCase_char_def)

lemma accept_b: "accept ref_newURL (example_cfg n) (Some ''/b'') = Some ''https://example.com/b''"
  by (simp add: accept_def example_cfg_def resolve_b clear_hash_def isInScope_def href_def
      shouldSkipUrl_def parse_b SKIP_EXTENSIONS_def endsWith_def toLowerCase_def toLowerCase_char_def)

lemma accept_c: "accept ref_newURL (example_cfg n) (Some ''https://other.com/c'') = None"
  by (simp add: accept_def example_cfg_def resolve_c clear_hash_def isInScope_def)

lemma example_cfg_sel [simp]:
  "url (example_cfg n) = ''https://example.com''"
  "domain (example_cfg n) = [''example.com'', ''*.example.com'']"
  "maxPages (example_cfg n) = Num (real n)"
  by (simp_all add: example_cfg_def)

lemmas run_eval =
  probe_def init_def
  visit_page_def record_response_def anchor_step_def accept_a accept_b accept_c
  parse_seed parse_a parse_b
  nextUnvisited_def next_index_def difference_def set_add_def
  draw_zero.rep_eq draw_half.rep_eq

lemma example_run:
  "probe ref_newURL example_site (\<lambda>_. draw_zero) (example_cfg 3) =
     \<lparr>links = [''https://example.com/a'', ''https://example.com/b''],
      visits = [''https://example.com'', ''https://example.com/a'', ''https://example.com/b''],
      requests = [(''https://example.com'', 200), (''https://example.com/a'', 200), (''https://example.com/b'', 200)],
      domains = [''example.com''],
      nextUrl = ''https://example.com/b'',
      gotos = [''https://example.com'', ''https://example.com/a'', ''https://example.com/b'']\<rparr>"
  by (simp add: loop.simps run_eval example_site_def)


section \<open>The request ledger: properties\<close>

lemma record_response_parsed:
  assumes "newURL x None = Inr u"
  shows "set (domains (record_response newURL cfg (x, st) s)) = insert (hostname u) (set (domains s))"
    and "hostname u \<in> set (domain cfg) \<Longrightarrow>
         requests (record_response newURL cfg (x, st) s) = AList.update x st (requests s)"
    and "hostname u \<notin> set (domain cfg) \<Longrightarrow>
         requests (record_response newURL cfg (x, st) s) = requests s"
  using assms by (simp_all add: record_response_def Let_def)

lemma record_response_failed:
  "newURL x None = Inl e \<Longrightarrow> record_response newURL cfg (x, st) s = s"
  by (simp add: record_response_def)

lemma record_response_ledger_ok:
  assumes "ledger_ok newURL cfg s"
  shows "ledger_ok newURL cfg (record_response newURL cfg ev s)"
proof (cases "newURL (fst ev) None")
  case (Inl e)
  then show ?thesis using assms by (simp add: record_response_def)
next
  case (Inr u)
  show ?thesis
  proof (cases "hostname u \<in> set (domain cfg)")
    case True
    then have r: "requests (record_response newURL cfg ev s) = AList.update (fst ev) (snd ev) (requests s)"
      using Inr by (simp add: record_response_def Let_def)
    show ?thesis
      unfolding ledger_ok_def r AList.dom_update
      using assms Inr True by (auto simp: ledger_ok_def AList.distinct_update)
  next
    case False
    then have "requests (record_response newURL cfg ev s) = requests s"
      using Inr by (simp add: record_response_def Let_def)
    then show ?thesis using assms by (simp add: ledger_ok_def)
  qed
qed

lemma trace_ledger_ok:
  "\<forall>t\<in>set (probe_trace newURL drv rnd cfg). ledger_ok newURL cfg t"
proof -
  have i: "ledger_ok newURL cfg (init cfg)" by (simp add: ledger_ok_def init_def)
  have "\<forall>t\<in>set (loop_trace newURL drv rnd cfg 0 (init cfg)). ledger_ok newURL cfg t"
  proof (rule loop_trace_invariant [where P = "ledger_ok newURL cfg"])
    show "ledger_ok newURL cfg (init cfg)" by (rule i)
  next
    fix s assume "ledger_ok newURL cfg s"
    then show "ledger_ok newURL cfg (s\<lparr>visits := set_add (nextUrl s) (visits s), gotos := gotos s @ [nextUrl s]\<rparr>)"
      by (simp add: ledger_ok_def)
  next
    fix e s assume "ledger_ok newURL cfg s"
    then show "ledger_ok newURL cfg (record_response newURL cfg e s)"
      by (rule record_response_ledger_ok)
  next
    fix a s assume "ledger_ok newURL cfg s"
    then show "ledger_ok newURL cfg (anchor_step newURL cfg a s)"
      by (simp add: ledger_ok_def)
  next
    fix s r n assume "ledger_ok newURL cfg s"
    then show "ledger_ok newURL cfg (s\<lparr>nextUrl := n\<rparr>)"
      by (simp add: ledger_ok_def)
  qed
  with i show ?thesis by (simp add: probe_trace_def)
qed

text \<open>
  C4. For a response whose URL parses, the handler adds the hostname to \<open>domains\<close>
  whatever the scope, and stores the status under the response URL iff the hostname is
  an element of \<open>domain\<close>; the stored status replaces an earlier one for the same URL
  and no other entry changes. In every state of a run every key of the ledger has a
  hostname in \<open>domain\<close>, and no key occurs twice.
\<close>

theorem record_response_spec:
  "(\<forall>x st s u. newURL x None = Inr u \<longrightarrow>
       set (domains (record_response newURL cfg (x, st) s)) = insert (hostname u) (set (domains s))
       \<and> (hostname u \<in> set (domain cfg) \<longrightarrow>
            requests (record_response newURL cfg (x, st) s) = AList.update x st (requests s)
            \<and> map_of (requests (record_response newURL cfg (x, st) s)) = (map_of (requests s))(x \<mapsto> st))
       \<and> (hostname u \<notin> set (domain cfg) \<longrightarrow>
            requests (record_response newURL cfg (x, st) s) = requests s))
   \<and> (\<forall>t\<in>set (probe_trace newURL drv rnd cfg). \<forall>k\<in>fst ` set (requests t).
         \<exists>u. newURL k None = Inr u \<and> hostname u \<in> set (domain cfg))
   \<and> (\<forall>t\<in>set (probe_trace newURL drv rnd cfg). distinct (map fst (requests t)))
   \<and> probe newURL drv rnd cfg = last (probe_trace newURL drv rnd cfg)"
proof (intro conjI allI impI ballI)
  fix x st s u assume p: "newURL x None = Inr u"
  show "set (domains (record_response newURL cfg (x, st) s)) = insert (hostname u) (set (domains s))"
    using p by (rule record_response_parsed)
  {
    assume h: "hostname u \<in> set (domain cfg)"
    show r: "requests (record_response newURL cfg (x, st) s) = AList.update x st (requests s)"
      using p h by (rule record_response_parsed)
    show "map_of (requests (record_response newURL cfg (x, st) s)) = (map_of (requests s))(x \<mapsto> st)"
      unfolding r by (rule AList.update_conv')
  }
  {
    assume h: "hostname u \<notin> set (domain cfg)"
    show "requests (record_response newURL cfg (x, st) s) = requests s"
      using p h by (rule record_response_parsed)
  }
next
  fix t k assume "t \<in> set (probe_trace newURL drv rnd cfg)" and "k \<in> fst ` set (requests t)"
  then show "\<exists>u. newURL k None = Inr u \<and> hostname u \<in> set (domain cfg)"
    using trace_ledger_ok [of newURL drv rnd cfg] unfolding ledger_ok_def by blast
next
  fix t assume "t \<in> set (probe_trace newURL drv rnd cfg)"
  then show "distinct (map fst (requests t))"
    using trace_ledger_ok [of newURL drv rnd cfg] unfolding ledger_ok_def by blast
next
  show "probe newURL drv rnd cfg = last (probe_trace newURL drv rnd cfg)"
    by (simp only: probe_def probe_trace_def loop_last)
qed


theorem record_response_spec_witness:
  "ref_newURL ''https://example.com/a'' None =
     Inr \<lparr>scheme = ''https'', hostname = ''example.com'', port = None, pathname = ''/a'',
          query = None, fragment = None\<rparr>
   \<and> ''example.com'' \<in> set (domain (example_cfg 3))
   \<and> requests (record_response ref_newURL (example_cfg 3) (''https://example.com/a'', 404)
        ((init (example_cfg 3))\<lparr>requests := [(''https://example.com/a'', 200)]\<rparr>))
      = [(''https://example.com/a'', 404)]"
proof -
  let ?u = "\<lparr>scheme = ''https'', hostname = ''example.com'', port = None, pathname = ''/a'',
          query = None, fragment = None\<rparr>"
  have m: "hostname ?u \<in> set (domain (example_cfg 3))" by simp
  note g = record_response_spec [of ref_newURL "example_cfg 3", THEN conjunct1, rule_format,
      of "''https://example.com/a''" ?u, OF parse_a, THEN conjunct2, THEN conjunct1, rule_format, OF m,
      THEN conjunct1]
  have "requests (record_response ref_newURL (example_cfg 3) (''https://example.com/a'', 404)
        ((init (example_cfg 3))\<lparr>requests := [(''https://example.com/a'', 200)]\<rparr>))
      = [(''https://example.com/a'', 404)]"
    by (simp add: g init_def)
  with parse_a m show ?thesis by simp
qed

section \<open>Soundness of the frontier\<close>

lemma accept_accepted:
  assumes "accept newURL cfg a = Some l"
  shows "accepted newURL cfg l"
proof -
  from assms obtain h where a: "a = Some h" and h: "h \<noteq> []"
    by (auto simp: accept_def split: option.splits if_splits)
  from assms a h obtain u where u: "newURL h (Some (url cfg)) = Inr u"
    by (auto simp: accept_def split: sum.splits)
  from assms a h u have sc: "isInScope (hostname (clear_hash u)) (domain cfg)"
    by (auto simp: accept_def Let_def split: if_splits)
  from assms a h u sc have sk: "shouldSkipUrl newURL (href (clear_hash u)) = Inr False"
    and l: "l = href (clear_hash u)"
    by (auto simp: accept_def Let_def split: sum.splits if_splits)
  have "hostname (clear_hash u) = hostname u" by (simp add: clear_hash_def)
  with u sc sk l show ?thesis
    unfolding accepted_def by auto
qed

lemma anchor_step_frontier_ok:
  assumes "frontier_ok newURL cfg s"
  shows "frontier_ok newURL cfg (anchor_step newURL cfg a s)"
proof (cases "accept newURL cfg a")
  case None
  then show ?thesis using assms by (simp add: anchor_step_def)
next
  case (Some l)
  then have "accepted newURL cfg l" by (rule accept_accepted)
  then show ?thesis using assms Some by (auto simp: anchor_step_def frontier_ok_def)
qed

lemma trace_frontier_ok:
  "\<forall>t\<in>set (probe_trace newURL drv rnd cfg). frontier_ok newURL cfg t"
proof -
  have i: "frontier_ok newURL cfg (init cfg)" by (simp add: frontier_ok_def init_def)
  have "\<forall>t\<in>set (loop_trace newURL drv rnd cfg 0 (init cfg)). frontier_ok newURL cfg t"
  proof (rule loop_trace_invariant [where P = "frontier_ok newURL cfg"])
    show "frontier_ok newURL cfg (init cfg)" by (rule i)
  next
    fix s assume "frontier_ok newURL cfg s"
    then show "frontier_ok newURL cfg (s\<lparr>visits := set_add (nextUrl s) (visits s), gotos := gotos s @ [nextUrl s]\<rparr>)"
      by (auto simp: frontier_ok_def)
  next
    fix e s assume "frontier_ok newURL cfg s"
    then show "frontier_ok newURL cfg (record_response newURL cfg e s)"
      by (simp add: frontier_ok_def)
  next
    fix a s assume "frontier_ok newURL cfg s"
    then show "frontier_ok newURL cfg (anchor_step newURL cfg a s)"
      by (rule anchor_step_frontier_ok)
  next
    fix s r n assume s: "frontier_ok newURL cfg s" and "nextUnvisited r (links s) (visits s) = Some n"
    then have "n \<in> set (links s)" using nextUnvisited_Some by blast
    with s show "frontier_ok newURL cfg (s\<lparr>nextUrl := n\<rparr>)"
      by (simp add: frontier_ok_def)
  qed
  with i show ?thesis by (simp add: probe_trace_def)
qed

text \<open>
  C8, as amended. In every state of a run, every discovered link has passed the
  classifier: it is the serialisation of a URL resolved against the seed with its
  fragment cleared, its hostname is in scope and the extension filter does not skip it.
  Every visited page other than the seed URL has passed the classifier too. The seed is
  visited as it was given, whatever the filters say about it.
\<close>

theorem frontier_links_accepted:
  "(\<forall>t\<in>set (probe_trace newURL drv rnd cfg).
      (\<forall>l\<in>set (links t). accepted newURL cfg l)
      \<and> (\<forall>v\<in>set (visits t). v = url cfg \<or> accepted newURL cfg v))
   \<and> probe newURL drv rnd cfg = last (probe_trace newURL drv rnd cfg)
   \<and> probe newURL drv rnd cfg \<in> set (probe_trace newURL drv rnd cfg)"
proof (intro conjI ballI)
  fix t assume t: "t \<in> set (probe_trace newURL drv rnd cfg)"
  then have ok: "frontier_ok newURL cfg t" using trace_frontier_ok by blast
  {
    fix l assume "l \<in> set (links t)"
    then show "accepted newURL cfg l" using ok by (simp add: frontier_ok_def)
  }
  {
    fix v assume "v \<in> set (visits t)"
    then show "v = url cfg \<or> accepted newURL cfg v" using ok by (simp add: frontier_ok_def)
  }
next
  show l: "probe newURL drv rnd cfg = last (probe_trace newURL drv rnd cfg)"
    by (simp only: probe_def probe_trace_def loop_last)
  have "probe_trace newURL drv rnd cfg \<noteq> []" by (simp add: probe_trace_def)
  then show "probe newURL drv rnd cfg \<in> set (probe_trace newURL drv rnd cfg)"
    unfolding l by (rule last_in_set)
qed

theorem frontier_links_accepted_witness:
  "links (probe ref_newURL example_site (\<lambda>_. draw_zero) (example_cfg 3))
     = [''https://example.com/a'', ''https://example.com/b'']
   \<and> visits (probe ref_newURL example_site (\<lambda>_. draw_zero) (example_cfg 3))
     = [''https://example.com'', ''https://example.com/a'', ''https://example.com/b'']
   \<and> accepted ref_newURL (example_cfg 3) ''https://example.com/a''
   \<and> accepted ref_newURL (example_cfg 3) ''https://example.com/b''"
proof -
  let ?p = "probe ref_newURL example_site (\<lambda>_. draw_zero) (example_cfg 3)"
  note g = frontier_links_accepted [of ref_newURL example_site "\<lambda>_. draw_zero" "example_cfg 3"]
  from g have "?p \<in> set (probe_trace ref_newURL example_site (\<lambda>_. draw_zero) (example_cfg 3))"
    by blast
  with g have "\<forall>l\<in>set (links ?p). accepted ref_newURL (example_cfg 3) l"
    by blast
  then show ?thesis
    by (simp add: example_run)
qed

text \<open>
  C8, as stated, fails on the seed: with the seed \<open>https://example.com/report.pdf\<close>
  and a budget of one page the seed is visited, and the extension filter skips it.
\<close>

theorem seed_not_filtered:
  "\<not> (\<forall>v\<in>set (visits (probe ref_newURL no_anchors (\<lambda>_. draw_zero) pdf_cfg)).
         accepted ref_newURL pdf_cfg v)"
proof -
  have v: "visits (probe ref_newURL no_anchors (\<lambda>_. draw_zero) pdf_cfg) = [''https://example.com/report.pdf'']"
    by (simp add: probe_def init_def pdf_cfg_def loop.simps visit_page_def no_anchors_def
        nextUnvisited_def difference_def set_add_def)
  have "shouldSkipUrl ref_newURL ''https://example.com/report.pdf'' = Inr True"
    by (simp add: skip_eval ref_parser_defs)
  then have "\<not> accepted ref_newURL pdf_cfg ''https://example.com/report.pdf''"
    by (simp add: accepted_def)
  then show ?thesis by (simp add: v)
qed


section \<open>Growth of the frontier sets\<close>

lemma grows_refl [simp]: "grows s s"
  by (simp add: grows_def)

lemma grows_trans: "grows a b \<Longrightarrow> grows b c \<Longrightarrow> grows a c"
  by (auto simp: grows_def)

lemma chain_last: "sorted_wrt grows xs \<Longrightarrow> x \<in> set xs \<Longrightarrow> grows x (last xs)"
  by (induction xs) auto

lemma chain_append:
  assumes "sorted_wrt grows (a # xs)" and "sorted_wrt grows (last (a # xs) # ys)"
  shows "sorted_wrt grows (a # xs @ ys)"
proof -
  have "grows x y" if "x \<in> set (a # xs)" and "y \<in> set ys" for x y
  proof -
    have "grows x (last (a # xs))" using assms(1) that(1) by (rule chain_last)
    moreover have "grows (last (a # xs)) y" using assms(2) that(2) by simp
    ultimately show ?thesis by (rule grows_trans)
  qed
  moreover have "sorted_wrt grows ys" using assms(2) by simp
  ultimately have "sorted_wrt grows ((a # xs) @ ys)"
    using assms(1) unfolding sorted_wrt_append by blast
  then show ?thesis by simp
qed

lemma steps_chain:
  assumes "\<And>x s. grows s (f x s)"
  shows "sorted_wrt grows (s # steps f s xs)"
proof (induction xs arbitrary: s)
  case Nil
  show ?case by simp
next
  case (Cons x xs)
  have ih: "sorted_wrt grows (f x s # steps f (f x s) xs)" by (rule Cons.IH)
  have "grows s y" if "y \<in> set (f x s # steps f (f x s) xs)" for y
  proof -
    have "grows (f x s) y" using ih that by auto
    with assms [of s x] show ?thesis by (rule grows_trans)
  qed
  with ih show ?case by simp
qed

lemma grows_record_response: "grows s (record_response newURL cfg e s)"
  by (simp add: grows_def)

lemma grows_anchor_step: "grows s (anchor_step newURL cfg a s)"
  by (simp add: grows_def anchor_step_def split: option.splits)

lemma visit_trace_chain: "sorted_wrt grows (s # visit_trace newURL drv cfg i s)"
proof -
  let ?s1 = "s\<lparr>visits := set_add (nextUrl s) (visits s), gotos := gotos s @ [nextUrl s]\<rparr>"
  let ?t2 = "steps (record_response newURL cfg) ?s1 (events (drv i (nextUrl s)))"
  let ?t3 = "steps (anchor_step newURL cfg) (last (?s1 # ?t2)) (anchors (drv i (nextUrl s)))"
  have 1: "sorted_wrt grows (?s1 # ?t2)"
    by (rule steps_chain) (rule grows_record_response)
  have 2: "sorted_wrt grows (last (?s1 # ?t2) # ?t3)"
    by (rule steps_chain) (rule grows_anchor_step)
  have 3: "sorted_wrt grows (?s1 # ?t2 @ ?t3)"
    using 1 2 by (rule chain_append)
  have "grows s y" if "y \<in> set (?s1 # ?t2 @ ?t3)" for y
  proof -
    have "grows s ?s1" by (simp add: grows_def)
    moreover have "grows ?s1 y" using 3 that by auto
    ultimately show ?thesis by (rule grows_trans)
  qed
  with 3 have "sorted_wrt grows (s # ?s1 # ?t2 @ ?t3)" by simp
  then show ?thesis by (simp add: visit_trace_def Let_def)
qed

lemma loop_trace_chain: "sorted_wrt grows (s # loop_trace newURL drv rnd cfg i s)"
proof (induction newURL drv rnd cfg i s rule: loop_trace.induct)
  case (1 newURL drv rnd cfg i s)
  show ?case
  proof (cases "below i (maxPages cfg)")
    case False
    then show ?thesis by (simp add: loop_trace.simps)
  next
    case True
    let ?s3 = "visit_page newURL drv cfg i s"
    let ?vt = "visit_trace newURL drv cfg i s"
    have vt: "sorted_wrt grows (s # ?vt)" by (rule visit_trace_chain)
    have l: "last (s # ?vt) = ?s3" by (simp add: visit_page_last)
    show ?thesis
    proof (cases "nextUnvisited (rnd i) (links ?s3) (visits ?s3)")
      case None
      with True vt show ?thesis
        by (simp add: loop_trace.simps [of _ _ _ _ i s] Let_def)
    next
      case (Some n)
      let ?s' = "?s3\<lparr>nextUrl := n\<rparr>"
      let ?rest = "loop_trace newURL drv rnd cfg (Suc i) ?s'"
      have ih: "sorted_wrt grows (?s' # ?rest)" using True Some by (rule "1.IH" [OF _ refl])
      have "grows ?s3 y" if "y \<in> set (?s' # ?rest)" for y
      proof -
        have "grows ?s3 ?s'" by (simp add: grows_def)
        moreover have "grows ?s' y" using ih that by auto
        ultimately show ?thesis by (rule grows_trans)
      qed
      with ih have "sorted_wrt grows (last (s # ?vt) # ?s' # ?rest)"
        unfolding l by simp
      with vt have "sorted_wrt grows (s # ?vt @ ?s' # ?rest)" by (rule chain_append)
      with True Some show ?thesis
        by (simp add: loop_trace.simps [of _ _ _ _ i s] Let_def)
    qed
  qed
qed

lemma grows_subset: "grows s t \<Longrightarrow> set (links s) \<subseteq> set (links t) \<and> set (visits s) \<subseteq> set (visits t)"
  by (auto simp: grows_def dest: set_mono_prefix)

lemma trace_visits_ok: "\<forall>t\<in>set (probe_trace newURL drv rnd cfg). visits_ok cfg t"
proof -
  have i: "visits_ok cfg (init cfg)" by (simp add: visits_ok_def init_def)
  have "\<forall>t\<in>set (loop_trace newURL drv rnd cfg 0 (init cfg)). visits_ok cfg t"
  proof (rule loop_trace_invariant [where P = "visits_ok cfg"])
    show "visits_ok cfg (init cfg)" by (rule i)
  next
    fix s assume "visits_ok cfg s"
    then show "visits_ok cfg (s\<lparr>visits := set_add (nextUrl s) (visits s), gotos := gotos s @ [nextUrl s]\<rparr>)"
      by (auto simp: visits_ok_def)
  next
    fix e s assume "visits_ok cfg s"
    then show "visits_ok cfg (record_response newURL cfg e s)"
      by (simp add: visits_ok_def)
  next
    fix a s assume "visits_ok cfg s"
    then show "visits_ok cfg (anchor_step newURL cfg a s)"
      using anchor_step_links [of newURL cfg a s] by (auto simp: visits_ok_def)
  next
    fix s r n assume s: "visits_ok cfg s" and "nextUnvisited r (links s) (visits s) = Some n"
    then have "n \<in> set (links s)" using nextUnvisited_Some by blast
    with s show "visits_ok cfg (s\<lparr>nextUrl := n\<rparr>)"
      by (simp add: visits_ok_def)
  qed
  with i show ?thesis by (simp add: probe_trace_def)
qed

text \<open>
  C3. In every state of a run the visited pages are discovered links or the seed. From
  any state of a run to any later one both sets only grow: the earlier list of links
  (of visits) is an initial segment of the later one. The run starts in the initial
  state and the result of \<open>probe\<close> is its last state.
\<close>

theorem frontier_sets_grow:
  "(\<forall>t\<in>set (probe_trace newURL drv rnd cfg). set (visits t) \<subseteq> set (links t) \<union> {url cfg})
   \<and> (\<forall>j k. j \<le> k \<and> k < length (probe_trace newURL drv rnd cfg) \<longrightarrow>
         set (links (probe_trace newURL drv rnd cfg ! j)) \<subseteq> set (links (probe_trace newURL drv rnd cfg ! k))
         \<and> set (visits (probe_trace newURL drv rnd cfg ! j)) \<subseteq> set (visits (probe_trace newURL drv rnd cfg ! k))
         \<and> grows (probe_trace newURL drv rnd cfg ! j) (probe_trace newURL drv rnd cfg ! k))
   \<and> probe_trace newURL drv rnd cfg ! 0 = init cfg
   \<and> probe newURL drv rnd cfg = last (probe_trace newURL drv rnd cfg)"
proof (intro conjI ballI allI impI)
  fix t assume "t \<in> set (probe_trace newURL drv rnd cfg)"
  then have "visits_ok cfg t" using trace_visits_ok by blast
  then show "set (visits t) \<subseteq> set (links t) \<union> {url cfg}" by (simp add: visits_ok_def)
next
  fix j k assume jk: "j \<le> k \<and> k < length (probe_trace newURL drv rnd cfg)"
  let ?pt = "probe_trace newURL drv rnd cfg"
  have ch: "sorted_wrt grows ?pt"
    unfolding probe_trace_def by (rule loop_trace_chain)
  show g: "grows (?pt ! j) (?pt ! k)"
  proof (cases "j = k")
    case True
    then show ?thesis by simp
  next
    case False
    with jk have "j < k" and "k < length ?pt" by auto
    with ch show ?thesis by (simp add: sorted_wrt_iff_nth_less)
  qed
  from g show "set (links (?pt ! j)) \<subseteq> set (links (?pt ! k))"
    using grows_subset by blast
  from g show "set (visits (?pt ! j)) \<subseteq> set (visits (?pt ! k))"
    using grows_subset by blast
next
  show "probe_trace newURL drv rnd cfg ! 0 = init cfg"
    by (simp add: probe_trace_def)
next
  show "probe newURL drv rnd cfg = last (probe_trace newURL drv rnd cfg)"
    by (simp only: probe_def probe_trace_def loop_last)
qed


theorem frontier_sets_grow_witness:
  "(0::nat) \<le> length (probe_trace ref_newURL example_site (\<lambda>_. draw_zero) (example_cfg 3)) - 1
   \<and> length (probe_trace ref_newURL example_site (\<lambda>_. draw_zero) (example_cfg 3)) - 1
       < length (probe_trace ref_newURL example_site (\<lambda>_. draw_zero) (example_cfg 3))
   \<and> grows (init (example_cfg 3)) (probe ref_newURL example_site (\<lambda>_. draw_zero) (example_cfg 3))
   \<and> set (visits (probe ref_newURL example_site (\<lambda>_. draw_zero) (example_cfg 3)))
       \<subseteq> set (links (probe ref_newURL example_site (\<lambda>_. draw_zero) (example_cfg 3)))
          \<union> {url (example_cfg 3)}
   \<and> visits (probe ref_newURL example_site (\<lambda>_. draw_zero) (example_cfg 3))
       = [''https://example.com'', ''https://example.com/a'', ''https://example.com/b'']"
proof -
  let ?pt = "probe_trace ref_newURL example_site (\<lambda>_. draw_zero) (example_cfg 3)"
  let ?p = "probe ref_newURL example_site (\<lambda>_. draw_zero) (example_cfg 3)"
  note g = frontier_sets_grow [of ref_newURL example_site "\<lambda>_. draw_zero" "example_cfg 3"]
  have ne: "?pt \<noteq> []" by (simp add: probe_trace_def)
  then have k: "0 \<le> length ?pt - 1 \<and> length ?pt - 1 < length ?pt" by simp
  have l: "?pt ! (length ?pt - 1) = ?p"
    using g ne by (simp add: last_conv_nth)
  have z: "?pt ! 0 = init (example_cfg 3)" using g by blast
  from g k have "grows (?pt ! 0) (?pt ! (length ?pt - 1))" by blast
  then have gr: "grows (init (example_cfg 3)) ?p" unfolding l z .
  have "?p \<in> set ?pt" using g ne by (metis last_in_set)
  with g have sub: "set (visits ?p) \<subseteq> set (links ?p) \<union> {url (example_cfg 3)}" by blast
  have v: "visits ?p = [''https://example.com'', ''https://example.com/a'', ''https://example.com/b'']"
    by (simp add: example_run)
  from k gr sub v show ?thesis by blast
qed

section \<open>The page budget\<close>

lemma loop_ends_length_le:
  "length (loop_ends newURL drv rnd cfg i s) \<le> limit (maxPages cfg) - i"
proof (induction newURL drv rnd cfg i s rule: loop_ends.induct)
  case (1 newURL drv rnd cfg i s)
  show ?case
  proof (cases "below i (maxPages cfg)")
    case False
    then show ?thesis by (simp add: loop_ends.simps)
  next
    case True
    let ?s3 = "visit_page newURL drv cfg i s"
    show ?thesis
    proof (cases "nextUnvisited (rnd i) (links ?s3) (visits ?s3)")
      case None
      with True show ?thesis
        by (simp add: loop_ends.simps [of _ _ _ _ i s] Let_def)
    next
      case (Some n)
      have "length (loop_ends newURL drv rnd cfg (Suc i) (?s3\<lparr>nextUrl := n\<rparr>)) \<le> limit (maxPages cfg) - Suc i"
        using True Some by (rule "1.IH" [OF _ refl])
      with True Some show ?thesis
        by (simp add: loop_ends.simps [of _ _ _ _ i s] Let_def)
    qed
  qed
qed

lemma loop_gotos_length:
  "length (gotos (loop newURL drv rnd cfg i s)) =
   length (gotos s) + length (loop_ends newURL drv rnd cfg i s)"
proof (induction newURL drv rnd cfg i s rule: loop_ends.induct)
  case (1 newURL drv rnd cfg i s)
  show ?case
  proof (cases "below i (maxPages cfg)")
    case False
    then show ?thesis by (simp add: loop_ends.simps loop.simps)
  next
    case True
    let ?s3 = "visit_page newURL drv cfg i s"
    show ?thesis
    proof (cases "nextUnvisited (rnd i) (links ?s3) (visits ?s3)")
      case None
      with True show ?thesis
        by (simp add: loop_ends.simps [of _ _ _ _ i s] loop.simps [of _ _ _ _ i s] Let_def visit_page_gotos)
    next
      case (Some n)
      have "length (gotos (loop newURL drv rnd cfg (Suc i) (?s3\<lparr>nextUrl := n\<rparr>))) =
            length (gotos (?s3\<lparr>nextUrl := n\<rparr>)) + length (loop_ends newURL drv rnd cfg (Suc i) (?s3\<lparr>nextUrl := n\<rparr>))"
        using True Some by (rule "1.IH" [OF _ refl])
      with True Some show ?thesis
        by (simp add: loop_ends.simps [of _ _ _ _ i s] loop.simps [of _ _ _ _ i s] Let_def visit_page_gotos)
    qed
  qed
qed

lemma loop_ends_empty_last:
  assumes "j < length (loop_ends newURL drv rnd cfg i s)"
    and "frontier (loop_ends newURL drv rnd cfg i s ! j) = []"
  shows "Suc j = length (loop_ends newURL drv rnd cfg i s)"
  using assms
proof (induction newURL drv rnd cfg i s arbitrary: j rule: loop_ends.induct)
  case (1 newURL drv rnd cfg i s)
  show ?case
  proof (cases "below i (maxPages cfg)")
    case False
    with "1.prems" show ?thesis by (simp add: loop_ends.simps)
  next
    case True
    let ?s3 = "visit_page newURL drv cfg i s"
    show ?thesis
    proof (cases "nextUnvisited (rnd i) (links ?s3) (visits ?s3)")
      case None
      with True have e: "loop_ends newURL drv rnd cfg i s = [?s3]"
        by (simp add: loop_ends.simps [of _ _ _ _ i s] Let_def)
      with "1.prems" show ?thesis by simp
    next
      case (Some n)
      let ?rest = "loop_ends newURL drv rnd cfg (Suc i) (?s3\<lparr>nextUrl := n\<rparr>)"
      from True Some have e: "loop_ends newURL drv rnd cfg i s = ?s3 # ?rest"
        by (simp add: loop_ends.simps [of _ _ _ _ i s] Let_def)
      have ne: "frontier ?s3 \<noteq> []"
      proof
        assume "frontier ?s3 = []"
        then have "nextUnvisited (rnd i) (links ?s3) (visits ?s3) = None"
          by (simp add: frontier_def nextUnvisited_None_iff)
        with Some show False by simp
      qed
      show ?thesis
      proof (cases j)
        case 0
        with "1.prems"(2) e ne show ?thesis by simp
      next
        case (Suc j')
        with "1.prems" e have "j' < length ?rest" and "frontier (?rest ! j') = []" by simp_all
        then have "Suc j' = length ?rest"
          using True Some by (intro "1.IH" [OF _ refl])
        with Suc e show ?thesis by simp
      qed
    qed
  qed
qed

lemma loop_ends_short_iff:
  "length (loop_ends newURL drv rnd cfg i s) < limit (maxPages cfg) - i \<longleftrightarrow>
   (\<exists>j<length (loop_ends newURL drv rnd cfg i s).
      i + Suc j < limit (maxPages cfg) \<and> frontier (loop_ends newURL drv rnd cfg i s ! j) = [])"
proof (induction newURL drv rnd cfg i s rule: loop_ends.induct)
  case (1 newURL drv rnd cfg i s)
  show ?case
  proof (cases "below i (maxPages cfg)")
    case False
    then show ?thesis by (simp add: loop_ends.simps)
  next
    case True
    let ?s3 = "visit_page newURL drv cfg i s"
    show ?thesis
    proof (cases "nextUnvisited (rnd i) (links ?s3) (visits ?s3)")
      case None
      with True have e: "loop_ends newURL drv rnd cfg i s = [?s3]"
        by (simp add: loop_ends.simps [of _ _ _ _ i s] Let_def)
      from None have f: "frontier ?s3 = []"
        by (simp add: frontier_def nextUnvisited_None_iff)
      show ?thesis unfolding e using f by auto
    next
      case (Some n)
      let ?rest = "loop_ends newURL drv rnd cfg (Suc i) (?s3\<lparr>nextUrl := n\<rparr>)"
      from True Some have e: "loop_ends newURL drv rnd cfg i s = ?s3 # ?rest"
        by (simp add: loop_ends.simps [of _ _ _ _ i s] Let_def)
      have ne: "frontier ?s3 \<noteq> []"
      proof
        assume "frontier ?s3 = []"
        then have "nextUnvisited (rnd i) (links ?s3) (visits ?s3) = None"
          by (simp add: frontier_def nextUnvisited_None_iff)
        with Some show False by simp
      qed
      have ih: "length ?rest < limit (maxPages cfg) - Suc i \<longleftrightarrow>
                (\<exists>j<length ?rest. Suc i + Suc j < limit (maxPages cfg) \<and> frontier (?rest ! j) = [])"
        using True Some by (rule "1.IH" [OF _ refl])
      have "length (?s3 # ?rest) < limit (maxPages cfg) - i \<longleftrightarrow> length ?rest < limit (maxPages cfg) - Suc i"
        by auto
      also have "\<dots> \<longleftrightarrow> (\<exists>j<length ?rest. Suc i + Suc j < limit (maxPages cfg) \<and> frontier (?rest ! j) = [])"
        by (rule ih)
      also have "\<dots> \<longleftrightarrow> (\<exists>j<length (?s3 # ?rest). i + Suc j < limit (maxPages cfg) \<and> frontier ((?s3 # ?rest) ! j) = [])"
      proof
        assume "\<exists>j<length ?rest. Suc i + Suc j < limit (maxPages cfg) \<and> frontier (?rest ! j) = []"
        then obtain j where "j < length ?rest" "Suc i + Suc j < limit (maxPages cfg)" "frontier (?rest ! j) = []"
          by blast
        then have "Suc j < length (?s3 # ?rest) \<and> i + Suc (Suc j) < limit (maxPages cfg)
                   \<and> frontier ((?s3 # ?rest) ! Suc j) = []" by simp
        then show "\<exists>j<length (?s3 # ?rest). i + Suc j < limit (maxPages cfg) \<and> frontier ((?s3 # ?rest) ! j) = []"
          by blast
      next
        assume "\<exists>j<length (?s3 # ?rest). i + Suc j < limit (maxPages cfg) \<and> frontier ((?s3 # ?rest) ! j) = []"
        then obtain j where j: "j < length (?s3 # ?rest)" "i + Suc j < limit (maxPages cfg)"
          "frontier ((?s3 # ?rest) ! j) = []" by blast
        with ne obtain j' where "j = Suc j'" by (cases j) auto
        with j have "j' < length ?rest \<and> Suc i + Suc j' < limit (maxPages cfg) \<and> frontier (?rest ! j') = []"
          by simp
        then show "\<exists>j<length ?rest. Suc i + Suc j < limit (maxPages cfg) \<and> frontier (?rest ! j) = []"
          by blast
      qed
      finally show ?thesis unfolding e .
    qed
  qed
qed


lemma loop_final_ends:
  "links (loop newURL drv rnd cfg i s) = links (last (s # loop_ends newURL drv rnd cfg i s))
   \<and> visits (loop newURL drv rnd cfg i s) = visits (last (s # loop_ends newURL drv rnd cfg i s))"
proof (induction newURL drv rnd cfg i s rule: loop_ends.induct)
  case (1 newURL drv rnd cfg i s)
  show ?case
  proof (cases "below i (maxPages cfg)")
    case False
    then show ?thesis by (simp add: loop_ends.simps loop.simps)
  next
    case True
    let ?s3 = "visit_page newURL drv cfg i s"
    show ?thesis
    proof (cases "nextUnvisited (rnd i) (links ?s3) (visits ?s3)")
      case None
      with True show ?thesis
        by (simp add: loop_ends.simps [of _ _ _ _ i s] loop_break)
    next
      case (Some n)
      let ?s' = "?s3\<lparr>nextUrl := n\<rparr>"
      have ih: "links (loop newURL drv rnd cfg (Suc i) ?s') = links (last (?s' # loop_ends newURL drv rnd cfg (Suc i) ?s'))
            \<and> visits (loop newURL drv rnd cfg (Suc i) ?s') = visits (last (?s' # loop_ends newURL drv rnd cfg (Suc i) ?s'))"
        using True Some by (rule "1.IH" [OF _ refl])
      from True Some have e: "loop_ends newURL drv rnd cfg i s = ?s3 # loop_ends newURL drv rnd cfg (Suc i) ?s'"
        by (simp add: loop_ends.simps [of _ _ _ _ i s] Let_def)
      from True Some have l: "loop newURL drv rnd cfg i s = loop newURL drv rnd cfg (Suc i) ?s'"
        by (simp add: loop_continue)
      show ?thesis unfolding e l using ih by auto
    qed
  qed
qed


lemma loop_visits_gotos:
  assumes "visits s = gotos s" and "nextUrl s \<notin> set (visits s)"
  shows "visits (loop newURL drv rnd cfg i s) = gotos (loop newURL drv rnd cfg i s)"
  using assms
proof (induction newURL drv rnd cfg i s rule: loop.induct)
  case (1 newURL drv rnd cfg i s)
  show ?case
  proof (cases "below i (maxPages cfg)")
    case False
    with "1.prems" show ?thesis by (simp add: loop.simps)
  next
    case True
    let ?s3 = "visit_page newURL drv cfg i s"
    have v: "visits ?s3 = gotos ?s3"
      using "1.prems" by (simp add: visit_page_visits visit_page_gotos set_add_def)
    show ?thesis
    proof (cases "nextUnvisited (rnd i) (links ?s3) (visits ?s3)")
      case None
      with True v show ?thesis by (simp add: loop_break)
    next
      case (Some n)
      then have n: "n \<notin> set (visits ?s3)" using nextUnvisited_Some by blast
      have "visits (loop newURL drv rnd cfg (Suc i) (?s3\<lparr>nextUrl := n\<rparr>)) =
            gotos (loop newURL drv rnd cfg (Suc i) (?s3\<lparr>nextUrl := n\<rparr>))"
        using True refl Some
      proof (rule "1.IH")
        show "visits (?s3\<lparr>nextUrl := n\<rparr>) = gotos (?s3\<lparr>nextUrl := n\<rparr>)" using v by simp
        show "nextUrl (?s3\<lparr>nextUrl := n\<rparr>) \<notin> set (visits (?s3\<lparr>nextUrl := n\<rparr>))" using n by simp
      qed
      with True Some show ?thesis by (simp add: loop_continue)
    qed
  qed
qed

text \<open>
  C2, as amended. The navigations of a run are its iterations, one per visited page,
  and at most \<open>limit maxPages\<close>: at most \<open>maxPages\<close> for a budget that is a natural
  number, fewer than \<open>maxPages + 1\<close> for any positive budget, and none for a budget
  that is zero, negative or \<open>NaN\<close>. There are strictly fewer than \<open>limit maxPages\<close>
  iff at the end of some iteration before the last one the budget admits no discovered
  link is unvisited. An iteration that ends with no unvisited link is the last one.
  The sets of the result are those at the end of the last iteration.
\<close>

theorem page_budget:
  "length (gotos (probe newURL drv rnd cfg)) = length (probe_ends newURL drv rnd cfg)
   \<and> links (probe newURL drv rnd cfg) = links (last (init cfg # probe_ends newURL drv rnd cfg))
   \<and> visits (probe newURL drv rnd cfg) = visits (last (init cfg # probe_ends newURL drv rnd cfg))
   \<and> visits (probe newURL drv rnd cfg) = gotos (probe newURL drv rnd cfg)
   \<and> length (gotos (probe newURL drv rnd cfg)) \<le> limit (maxPages cfg)
   \<and> (\<forall>n. maxPages cfg = Num (real n) \<longrightarrow> length (gotos (probe newURL drv rnd cfg)) \<le> n)
   \<and> (\<forall>x. maxPages cfg = Num x \<and> 0 < x \<longrightarrow> real (length (gotos (probe newURL drv rnd cfg))) < x + 1)
   \<and> (length (gotos (probe newURL drv rnd cfg)) < limit (maxPages cfg) \<longleftrightarrow>
        (\<exists>j<length (probe_ends newURL drv rnd cfg).
           Suc j < limit (maxPages cfg) \<and> frontier (probe_ends newURL drv rnd cfg ! j) = []))
   \<and> (\<forall>j<length (probe_ends newURL drv rnd cfg).
         frontier (probe_ends newURL drv rnd cfg ! j) = [] \<longrightarrow>
         Suc j = length (probe_ends newURL drv rnd cfg))"
proof (intro conjI allI impI)
  show n: "length (gotos (probe newURL drv rnd cfg)) = length (probe_ends newURL drv rnd cfg)"
    by (simp add: probe_def probe_ends_def loop_gotos_length init_def)
  show "links (probe newURL drv rnd cfg) = links (last (init cfg # probe_ends newURL drv rnd cfg))"
    unfolding probe_def probe_ends_def using loop_final_ends by blast
  show "visits (probe newURL drv rnd cfg) = visits (last (init cfg # probe_ends newURL drv rnd cfg))"
    unfolding probe_def probe_ends_def using loop_final_ends by blast
  show "visits (probe newURL drv rnd cfg) = gotos (probe newURL drv rnd cfg)"
    unfolding probe_def by (rule loop_visits_gotos) (simp_all add: init_def)
  show b: "length (gotos (probe newURL drv rnd cfg)) \<le> limit (maxPages cfg)"
    unfolding n probe_ends_def using loop_ends_length_le [of newURL drv rnd cfg 0 "init cfg"] by simp
  show "length (gotos (probe newURL drv rnd cfg)) \<le> k" if "maxPages cfg = Num (real k)" for k
    using b that by simp
  show "real (length (gotos (probe newURL drv rnd cfg))) < x + 1" if "maxPages cfg = Num x \<and> 0 < x" for x
  proof -
    from that b have "length (gotos (probe newURL drv rnd cfg)) \<le> nat \<lceil>x\<rceil>" by simp
    moreover have "real (nat \<lceil>x\<rceil>) < x + 1" using that by linarith
    ultimately show ?thesis by linarith
  qed
  show "length (gotos (probe newURL drv rnd cfg)) < limit (maxPages cfg) \<longleftrightarrow>
        (\<exists>j<length (probe_ends newURL drv rnd cfg).
           Suc j < limit (maxPages cfg) \<and> frontier (probe_ends newURL drv rnd cfg ! j) = [])"
    unfolding n probe_ends_def using loop_ends_short_iff [of newURL drv rnd cfg 0 "init cfg"] by simp
next
  fix j assume "j < length (probe_ends newURL drv rnd cfg)"
    and "frontier (probe_ends newURL drv rnd cfg ! j) = []"
  then show "Suc j = length (probe_ends newURL drv rnd cfg)"
    unfolding probe_ends_def by (rule loop_ends_empty_last)
qed

lemma quiet_ends:
  "probe_ends ref_newURL no_anchors (\<lambda>_. draw_zero) (example_cfg n) =
     (if 0 < n
      then [\<lparr>links = [], visits = [''https://example.com''], requests = [], domains = [],
             nextUrl = ''https://example.com'', gotos = [''https://example.com'']\<rparr>]
      else [])"
  by (simp add: probe_ends_def loop_ends.simps [of _ _ _ _ 0] init_def no_anchors_def visit_page_def
      nextUnvisited_def difference_def set_add_def)

theorem page_budget_witness:
  "(0::nat) < length (probe_ends ref_newURL no_anchors (\<lambda>_. draw_zero) (example_cfg 3))
   \<and> frontier (probe_ends ref_newURL no_anchors (\<lambda>_. draw_zero) (example_cfg 3) ! 0) = []
   \<and> Suc 0 = length (probe_ends ref_newURL no_anchors (\<lambda>_. draw_zero) (example_cfg 3))
   \<and> length (gotos (probe ref_newURL no_anchors (\<lambda>_. draw_zero) (example_cfg 3))) = 1
   \<and> length (gotos (probe ref_newURL no_anchors (\<lambda>_. draw_zero) (example_cfg 3))) < limit (maxPages (example_cfg 3))"
proof -
  let ?pe = "probe_ends ref_newURL no_anchors (\<lambda>_. draw_zero) (example_cfg 3)"
  note g = page_budget [of ref_newURL no_anchors "\<lambda>_. draw_zero" "example_cfg 3"]
  have l: "0 < length ?pe" by (simp add: quiet_ends)
  have f: "frontier (?pe ! 0) = []" by (simp add: quiet_ends frontier_def difference_def)
  from g l f have s: "Suc 0 = length ?pe" by blast
  with g have n: "length (gotos (probe ref_newURL no_anchors (\<lambda>_. draw_zero) (example_cfg 3))) = 1"
    by simp
  from l f s n show ?thesis by simp
qed

lemma accept_budget_cfg: "accept newURL (budget_cfg m) a = accept newURL (example_cfg 0) a"
  by (simp add: accept_def Let_def budget_cfg_def example_cfg_def
      cong: option.case_cong sum.case_cong if_cong)

lemma record_response_budget_cfg:
  "record_response newURL (budget_cfg m) ev s = record_response newURL (example_cfg 0) ev s"
  by (simp add: record_response_def budget_cfg_def example_cfg_def cong: sum.case_cong)

lemma budget_cfg_sel [simp]:
  "url (budget_cfg m) = ''https://example.com''" "maxPages (budget_cfg m) = m"
  "domain (budget_cfg m) = [''example.com'', ''*.example.com'']"
  by (simp_all add: budget_cfg_def)

lemma fractional_run:
  "gotos (probe ref_newURL example_site (\<lambda>_. draw_zero) (budget_cfg (Num (3 / 2))))
     = [''https://example.com'', ''https://example.com/a'']"
  by (simp add: loop.simps probe_def init_def visit_page_def example_site_def
      record_response_budget_cfg record_response_def parse_seed parse_a
      anchor_step_def accept_budget_cfg accept_a accept_b accept_c
      nextUnvisited_def next_index_def difference_def set_add_def draw_zero.rep_eq)

lemma negative_run:
  "gotos (probe ref_newURL no_anchors (\<lambda>_. draw_zero) (budget_cfg (Num (- 1)))) = []"
  by (simp add: loop.simps probe_def init_def)

text \<open>
  C2, as stated, fails in three ways. With the budget 1.5 and a site that shows links
  the loop makes two navigations, more than \<open>maxPages\<close>. With the budget -1 it makes
  none, which is not at most \<open>maxPages\<close> either. With the budget 1 and a page without
  anchors it makes one navigation, not fewer than \<open>maxPages\<close>, although the first
  iteration ends with no unvisited link.
\<close>

theorem page_budget_fails:
  "\<not> real (length (gotos (probe ref_newURL example_site (\<lambda>_. draw_zero) (budget_cfg (Num (3 / 2)))))) \<le> 3 / 2
   \<and> \<not> real (length (gotos (probe ref_newURL no_anchors (\<lambda>_. draw_zero) (budget_cfg (Num (- 1)))))) \<le> - 1
   \<and> maxPages (example_cfg 1) = Num 1
   \<and> \<not> (real (length (gotos (probe ref_newURL no_anchors (\<lambda>_. draw_zero) (example_cfg 1)))) < 1
      \<longleftrightarrow> (\<exists>j<length (probe_ends ref_newURL no_anchors (\<lambda>_. draw_zero) (example_cfg 1)).
             frontier (probe_ends ref_newURL no_anchors (\<lambda>_. draw_zero) (example_cfg 1) ! j) = []))"
proof (intro conjI)
  show "\<not> real (length (gotos (probe ref_newURL example_site (\<lambda>_. draw_zero) (budget_cfg (Num (3 / 2)))))) \<le> 3 / 2"
    unfolding fractional_run by simp
  show "\<not> real (length (gotos (probe ref_newURL no_anchors (\<lambda>_. draw_zero) (budget_cfg (Num (- 1)))))) \<le> - 1"
    unfolding negative_run by simp
  show "maxPages (example_cfg 1) = Num 1" by simp
  let ?pe = "probe_ends ref_newURL no_anchors (\<lambda>_. draw_zero) (example_cfg 1)"
  have e: "?pe = [\<lparr>links = [], visits = [''https://example.com''], requests = [], domains = [],
             nextUrl = ''https://example.com'', gotos = [''https://example.com'']\<rparr>]"
    by (simp add: quiet_ends)
  have p: "probe ref_newURL no_anchors (\<lambda>_. draw_zero) (example_cfg 1) =
     \<lparr>links = [], visits = [''https://example.com''], requests = [], domains = [],
      nextUrl = ''https://example.com'', gotos = [''https://example.com'']\<rparr>"
    by (simp add: probe_def loop.simps [of _ _ _ _ 0] init_def no_anchors_def visit_page_def
        nextUnvisited_def difference_def set_add_def)
  have 1: "\<not> real (length (gotos (probe ref_newURL no_anchors (\<lambda>_. draw_zero) (example_cfg 1)))) < 1"
    unfolding p by simp
  have "0 < length ?pe \<and> frontier (?pe ! 0) = []"
    unfolding e by (simp add: frontier_def difference_def)
  then have 2: "\<exists>j<length ?pe. frontier (?pe ! j) = []" by blast
  from 1 2 show "\<not> (real (length (gotos (probe ref_newURL no_anchors (\<lambda>_. draw_zero) (example_cfg 1)))) < 1
      \<longleftrightarrow> (\<exists>j<length ?pe. frontier (?pe ! j) = []))"
    by blast
qed

section \<open>The base of resolution\<close>

lemma resolve_rel_seed:
  "ref_newURL ''a'' (Some ''https://example.com'') =
     Inr \<lparr>scheme = ''https'', hostname = ''example.com'', port = None, pathname = ''/a'',
          query = None, fragment = None\<rparr>"
  by (simp add: ref_parser_defs)

lemma resolve_rel_page:
  "ref_newURL ''a'' (Some ''https://example.com/docs/intro'') =
     Inr \<lparr>scheme = ''https'', hostname = ''example.com'', port = None, pathname = ''/docs/a'',
          query = None, fragment = None\<rparr>"
  by (simp add: ref_parser_defs)

lemma accept_rel: "accept ref_newURL (example_cfg n) (Some ''a'') = Some ''https://example.com/a''"
  by (simp add: accept_def resolve_rel_seed clear_hash_def isInScope_def href_def
      shouldSkipUrl_def parse_a SKIP_EXTENSIONS_def endsWith_def toLowerCase_def toLowerCase_char_def)

lemma accept_resolves:
  assumes "accept newURL cfg (Some h) = Some l"
  shows "\<exists>u. newURL h (Some (url cfg)) = Inr u \<and> l = href (clear_hash u)"
  using assms by (auto simp: accept_def Let_def split: if_splits sum.splits)

text \<open>
  C10. The links a visit adds are the links the classifier accepts among the anchors
  of the page, and the classifier resolves every href against the seed \<open>url\<close>: neither
  the page being visited nor the iteration enters. On the page
  \<open>https://example.com/docs/intro\<close> of the seed \<open>https://example.com\<close> the anchor
  \<open>a\<close> gives \<open>https://example.com/a\<close>, where resolution against the page would
  have given the path \<open>/docs/a\<close>.
\<close>

theorem anchors_resolved_against_seed:
  "set (links (visit_page newURL drv cfg i s)) =
     set (links s) \<union> {l. \<exists>a\<in>set (anchors (drv i (nextUrl s))). accept newURL cfg a = Some l}
   \<and> (\<forall>h l. accept newURL cfg (Some h) = Some l \<longrightarrow>
         (\<exists>u. newURL h (Some (url cfg)) = Inr u \<and> l = href (clear_hash u)))
   \<and> links (visit_page ref_newURL relative_site (example_cfg 3) 1
        ((init (example_cfg 3))\<lparr>nextUrl := ''https://example.com/docs/intro''\<rparr>))
      = [''https://example.com/a'']
   \<and> ref_newURL ''a'' (Some ''https://example.com/docs/intro'') =
       Inr \<lparr>scheme = ''https'', hostname = ''example.com'', port = None, pathname = ''/docs/a'',
            query = None, fragment = None\<rparr>"
proof (intro conjI allI impI)
  show "set (links (visit_page newURL drv cfg i s)) =
     set (links s) \<union> {l. \<exists>a\<in>set (anchors (drv i (nextUrl s))). accept newURL cfg a = Some l}"
    by (rule visit_page_links)
next
  fix h l assume "accept newURL cfg (Some h) = Some l"
  then show "\<exists>u. newURL h (Some (url cfg)) = Inr u \<and> l = href (clear_hash u)"
    by (rule accept_resolves)
next
  show "links (visit_page ref_newURL relative_site (example_cfg 3) 1
        ((init (example_cfg 3))\<lparr>nextUrl := ''https://example.com/docs/intro''\<rparr>))
      = [''https://example.com/a'']"
    by (simp add: visit_page_def relative_site_def init_def anchor_step_def accept_rel set_add_def)
next
  show "ref_newURL ''a'' (Some ''https://example.com/docs/intro'') =
       Inr \<lparr>scheme = ''https'', hostname = ''example.com'', port = None, pathname = ''/docs/a'',
            query = None, fragment = None\<rparr>"
    by (rule resolve_rel_page)
qed

theorem anchors_resolved_against_seed_witness:
  "accept ref_newURL (example_cfg 3) (Some ''a'') = Some ''https://example.com/a''
   \<and> (\<exists>u. ref_newURL ''a'' (Some (url (example_cfg 3))) = Inr u
          \<and> ''https://example.com/a'' = href (clear_hash u))"
proof -
  have a: "accept ref_newURL (example_cfg 3) (Some ''a'') = Some ''https://example.com/a''"
    by (rule accept_rel)
  note g = anchors_resolved_against_seed [of ref_newURL _ "example_cfg 3", THEN conjunct2,
      THEN conjunct1, rule_format, OF a]
  from a g show ?thesis by blast
qed

section \<open>Failed navigations\<close>

lemma visit_page_response_irrelevant:
  "visit_page newURL (\<lambda>i t. (drv i t)\<lparr>response := r\<rparr>) cfg i s = visit_page newURL drv cfg i s"
  by (simp add: visit_page_def Let_def)

lemma timeout_visit:
  "visit_page ref_newURL timeout_site (example_cfg 3) 0 (init (example_cfg 3)) =
     \<lparr>links = [''https://example.com/a''], visits = [''https://example.com''], requests = [],
      domains = [], nextUrl = ''https://example.com'', gotos = [''https://example.com'']\<rparr>"
  by (simp add: visit_page_def timeout_site_def init_def anchor_step_def accept_a set_add_def)

text \<open>
  C7, as stated, fails when the browser shows anchors after a rejected navigation: the
  page of \<open>timeout_site\<close> has no response and the visit adds its link.
\<close>

theorem timeout_page_adds_links:
  "response (timeout_site 0 (nextUrl (init (example_cfg 3)))) = None
   \<and> links (init (example_cfg 3)) = []
   \<and> links (visit_page ref_newURL timeout_site (example_cfg 3) 0 (init (example_cfg 3)))
      = [''https://example.com/a'']"
  by (simp add: timeout_visit) (simp add: timeout_site_def init_def)

text \<open>
  C7, as amended. When \<open>page.goto\<close> is rejected the target is visited all the same,
  the visit is the one of the same page with a response, so the anchors the browser
  shows are classified as on any page (none are added when it shows none), and the
  loop goes on as after any visit: it stops when no link is unvisited and takes the
  next target otherwise.
\<close>

theorem failed_navigation:
  "response (drv i (nextUrl s)) = None \<longrightarrow>
     nextUrl s \<in> set (visits (visit_page newURL drv cfg i s))
     \<and> gotos (visit_page newURL drv cfg i s) = gotos s @ [nextUrl s]
     \<and> visit_page newURL drv cfg i s = visit_page newURL (\<lambda>i t. (drv i t)\<lparr>response := Some 200\<rparr>) cfg i s
     \<and> set (links (visit_page newURL drv cfg i s)) =
         set (links s) \<union> {l. \<exists>a\<in>set (anchors (drv i (nextUrl s))). accept newURL cfg a = Some l}
     \<and> (anchors (drv i (nextUrl s)) = [] \<longrightarrow> links (visit_page newURL drv cfg i s) = links s)
     \<and> (below i (maxPages cfg) \<longrightarrow>
          loop newURL drv rnd cfg i s =
          (case nextUnvisited (rnd i) (links (visit_page newURL drv cfg i s)) (visits (visit_page newURL drv cfg i s)) of
             None \<Rightarrow> visit_page newURL drv cfg i s
           | Some n \<Rightarrow> loop newURL drv rnd cfg (Suc i) ((visit_page newURL drv cfg i s)\<lparr>nextUrl := n\<rparr>)))"
proof (intro conjI impI)
  show "nextUrl s \<in> set (visits (visit_page newURL drv cfg i s))"
    by (simp add: visit_page_visits)
  show "gotos (visit_page newURL drv cfg i s) = gotos s @ [nextUrl s]"
    by (rule visit_page_gotos)
  show "visit_page newURL drv cfg i s = visit_page newURL (\<lambda>i t. (drv i t)\<lparr>response := Some 200\<rparr>) cfg i s"
    by (simp add: visit_page_response_irrelevant)
  show "set (links (visit_page newURL drv cfg i s)) =
         set (links s) \<union> {l. \<exists>a\<in>set (anchors (drv i (nextUrl s))). accept newURL cfg a = Some l}"
    by (rule visit_page_links)
  show "links (visit_page newURL drv cfg i s) = links s" if "anchors (drv i (nextUrl s)) = []"
    using that by (rule visit_page_no_anchors)
  show "loop newURL drv rnd cfg i s =
          (case nextUnvisited (rnd i) (links (visit_page newURL drv cfg i s)) (visits (visit_page newURL drv cfg i s)) of
             None \<Rightarrow> visit_page newURL drv cfg i s
           | Some n \<Rightarrow> loop newURL drv rnd cfg (Suc i) ((visit_page newURL drv cfg i s)\<lparr>nextUrl := n\<rparr>))"
    if "below i (maxPages cfg)"
    using that by (rule loop_continue)
qed

theorem failed_navigation_witness:
  "response (timeout_site 0 (nextUrl (init (example_cfg 3)))) = None
   \<and> nextUrl (init (example_cfg 3))
       \<in> set (visits (visit_page ref_newURL timeout_site (example_cfg 3) 0 (init (example_cfg 3))))
   \<and> gotos (visit_page ref_newURL timeout_site (example_cfg 3) 0 (init (example_cfg 3)))
       = [''https://example.com'']
   \<and> below 0 (maxPages (example_cfg 3))
   \<and> nextUrl (loop ref_newURL timeout_site (\<lambda>_. draw_zero) (example_cfg 3) 0 (init (example_cfg 3)))
       = ''https://example.com/a''"
proof -
  have r: "response (timeout_site 0 (nextUrl (init (example_cfg 3)))) = None"
    by (simp add: timeout_site_def)
  have m: "below 0 (maxPages (example_cfg 3))" by simp
  note g = failed_navigation [of timeout_site 0 "init (example_cfg 3)" ref_newURL "example_cfg 3"
      "\<lambda>_. draw_zero", THEN mp, OF r]
  from g have 1: "nextUrl (init (example_cfg 3))
       \<in> set (visits (visit_page ref_newURL timeout_site (example_cfg 3) 0 (init (example_cfg 3))))"
    by blast
  from g have "gotos (visit_page ref_newURL timeout_site (example_cfg 3) 0 (init (example_cfg 3)))
       = gotos (init (example_cfg 3)) @ [nextUrl (init (example_cfg 3))]"
    by blast
  then have 2: "gotos (visit_page ref_newURL timeout_site (example_cfg 3) 0 (init (example_cfg 3)))
       = [''https://example.com'']"
    by (simp add: init_def)
  have 3: "nextUrl (loop ref_newURL timeout_site (\<lambda>_. draw_zero) (example_cfg 3) 0 (init (example_cfg 3)))
       = ''https://example.com/a''"
    by (simp add: loop.simps run_eval timeout_site_def)
  from r 1 2 m 3 show ?thesis by blast
qed


section \<open>The classifier as a composition\<close>

lemma resolve_empty:
  "ref_newURL '''' (Some ''https://example.com'') =
     Inr \<lparr>scheme = ''https'', hostname = ''example.com'', port = None, pathname = ''/'',
          query = None, fragment = None\<rparr>"
  by (simp add: ref_parser_defs)

lemma parse_root:
  "ref_newURL ''https://example.com/'' None =
     Inr \<lparr>scheme = ''https'', hostname = ''example.com'', port = None, pathname = ''/'',
          query = None, fragment = None\<rparr>"
  by (simp add: ref_parser_defs)

lemma resolve_hostless:
  "ref_newURL ''http://'' (Some ''https://example.com'') = Inl TypeError"
  by (simp add: ref_parser_defs)

text \<open>
  C1, as stated, fails on the empty href: the loop skips it, and the composition
  resolves it to the seed's own URL, which it accepts.
\<close>

theorem empty_href_dropped:
  "accept ref_newURL (example_cfg 3) (Some '''') = None
   \<and> accept_spec ref_newURL '''' (url (example_cfg 3)) (domain (example_cfg 3))
       = Some ''https://example.com/''"
proof
  show "accept ref_newURL (example_cfg 3) (Some '''') = None"
    by (simp add: accept_def)
  show "accept_spec ref_newURL '''' (url (example_cfg 3)) (domain (example_cfg 3))
       = Some ''https://example.com/''"
    by (simp add: accept_spec_def normalize_def resolve_empty clear_hash_def isInScope_def href_def
        shouldSkipUrl_def parse_root SKIP_EXTENSIONS_def endsWith_def toLowerCase_def toLowerCase_char_def)
qed

lemma accept_nonempty:
  assumes "h \<noteq> []"
  shows "accept newURL cfg (Some h) = accept_spec newURL h (url cfg) (domain cfg)"
proof (cases "newURL h (Some (url cfg))")
  case (Inl e)
  with assms show ?thesis by (simp add: accept_def accept_spec_def normalize_def)
next
  case (Inr u)
  show ?thesis
  proof (cases "shouldSkipUrl newURL (href (clear_hash u))")
    case (Inl e)
    with Inr assms show ?thesis by (simp add: accept_def accept_spec_def normalize_def Let_def)
  next
    case (Inr skip)
    with \<open>newURL h (Some (url cfg)) = Inr u\<close> assms show ?thesis
      by (simp add: accept_def accept_spec_def normalize_def Let_def)
  qed
qed

lemma accept_spec_Some_iff:
  "accept_spec newURL h baseUrl scopeSpec = Some l \<longleftrightarrow>
   (\<exists>u. newURL h (Some baseUrl) = Inr u \<and> l = href (clear_hash u)
        \<and> isInScope (hostname (clear_hash u)) scopeSpec \<and> shouldSkipUrl newURL l = Inr False)"
  by (auto simp: accept_spec_def normalize_def split: sum.splits)

text \<open>
  C1, as amended. For a non-empty href the loop body is the composition: it adds the
  link \<open>l\<close> iff the href resolves against the seed to a URL whose serialisation
  without fragment is \<open>l\<close>, whose hostname is in scope and which the extension
  filter does not skip. A null or empty href adds nothing, and neither does an href
  whose resolution throws: the state is unchanged and the loop over the anchors goes on.
\<close>

theorem accept_composition:
  "(h \<noteq> [] \<longrightarrow> accept newURL cfg (Some h) = accept_spec newURL h (url cfg) (domain cfg))
   \<and> accept newURL cfg (Some []) = None
   \<and> accept newURL cfg None = None
   \<and> (\<forall>l. accept_spec newURL h (url cfg) (domain cfg) = Some l \<longleftrightarrow>
         (\<exists>u. newURL h (Some (url cfg)) = Inr u \<and> l = href (clear_hash u)
              \<and> isInScope (hostname (clear_hash u)) (domain cfg)
              \<and> shouldSkipUrl newURL l = Inr False))
   \<and> anchor_step newURL cfg a s =
       (case accept newURL cfg a of None \<Rightarrow> s | Some l \<Rightarrow> s\<lparr>links := set_add l (links s)\<rparr>)
   \<and> (\<forall>e. newURL h (Some (url cfg)) = Inl e \<longrightarrow> anchor_step newURL cfg (Some h) s = s)"
proof (intro conjI allI impI)
  show "accept newURL cfg (Some h) = accept_spec newURL h (url cfg) (domain cfg)" if "h \<noteq> []"
    using that by (rule accept_nonempty)
  show "accept newURL cfg (Some []) = None" by (simp add: accept_def)
  show "accept newURL cfg None = None" by (simp add: accept_def)
  show "accept_spec newURL h (url cfg) (domain cfg) = Some l \<longleftrightarrow>
         (\<exists>u. newURL h (Some (url cfg)) = Inr u \<and> l = href (clear_hash u)
              \<and> isInScope (hostname (clear_hash u)) (domain cfg)
              \<and> shouldSkipUrl newURL l = Inr False)" for l
    by (rule accept_spec_Some_iff)
  show "anchor_step newURL cfg a s =
       (case accept newURL cfg a of None \<Rightarrow> s | Some l \<Rightarrow> s\<lparr>links := set_add l (links s)\<rparr>)"
    by (simp add: anchor_step_def)
  show "anchor_step newURL cfg (Some h) s = s" if "newURL h (Some (url cfg)) = Inl e" for e
    using that by (simp add: anchor_step_def accept_def)
qed

theorem accept_composition_witness:
  "''/a'' \<noteq> []
   \<and> accept ref_newURL (example_cfg 3) (Some ''/a'') = Some ''https://example.com/a''
   \<and> accept_spec ref_newURL ''/a'' (url (example_cfg 3)) (domain (example_cfg 3)) = Some ''https://example.com/a''
   \<and> ref_newURL ''http://'' (Some (url (example_cfg 3))) = Inl TypeError
   \<and> anchor_step ref_newURL (example_cfg 3) (Some ''http://'') (init (example_cfg 3)) = init (example_cfg 3)"
proof -
  have n: "''/a'' \<noteq> []" by simp
  have e: "ref_newURL ''http://'' (Some (url (example_cfg 3))) = Inl TypeError"
    by (simp add: resolve_hostless)
  note g = accept_composition [of _ ref_newURL "example_cfg 3"]
  from g [of "''/a''"] n have 1: "accept ref_newURL (example_cfg 3) (Some ''/a'')
      = accept_spec ref_newURL ''/a'' (url (example_cfg 3)) (domain (example_cfg 3))"
    by blast
  from g [of "''http://''" _ "init (example_cfg 3)"] e
  have 2: "anchor_step ref_newURL (example_cfg 3) (Some ''http://'') (init (example_cfg 3)) = init (example_cfg 3)"
    by blast
  from n e 1 2 accept_a [of 3] show ?thesis by simp
qed

end
